theory Spec2Isabelle
  imports Main "HOL-Library.Sublist"
begin

chapter \<open>The programs\<close>

section \<open>The streaming bridge: \<^verbatim>\<open>generateStream\<close> (js/ai/src/generate.ts)\<close>

subsection \<open>Promises\<close>

text \<open>
  A JavaScript promise is settled at most once: resolving or rejecting a promise that is
  already settled has no effect.
\<close>

datatype ('v, 'e) promise = Pending | Fulfilled 'v | Rejected 'e

definition resolve :: "'v \<Rightarrow> ('v, 'e) promise \<Rightarrow> ('v, 'e) promise" where
  "resolve v p = (case p of Pending \<Rightarrow> Fulfilled v | _ \<Rightarrow> p)"

definition reject :: "'e \<Rightarrow> ('v, 'e) promise \<Rightarrow> ('v, 'e) promise" where
  "reject e p = (case p of Pending \<Rightarrow> Rejected e | _ \<Rightarrow> p)"

subsection \<open>The variables of one \<^verbatim>\<open>generateStream\<close> call\<close>

text \<open>
  \<^verbatim>\<open>chunkStream\<close> is an async generator: between two iterations it is not waiting on
  anything; inside \<^verbatim>\<open>await nextChunk\<close> it waits on the promise object that the variable
  \<^verbatim>\<open>nextChunk\<close> held when the \<^verbatim>\<open>await\<close> was evaluated; after \<^verbatim>\<open>break\<close> it is finished.
\<close>

datatype reader_state = NotAwaiting | Awaiting nat | Finished

text \<open>
  The promises made by \<^verbatim>\<open>createPromise\<close> for the chunk chain live in \<open>chain\<close>, an explicit
  store addressed by allocation order; a chunk promise carries \<open>Some chunk\<close> or \<open>None\<close> for
  \<^verbatim>\<open>null\<close>. The source assigns \<^verbatim>\<open>provideNextChunk\<close> and \<^verbatim>\<open>nextChunk\<close> together, always from
  the same \<^verbatim>\<open>createPromise()\<close>, so one address stands for the pair. \<open>unhandled\<close> collects
  rejections that no handler receives. \<open>reader\<close> and \<open>received\<close> are the state of one
  consumer iterating \<^verbatim>\<open>stream\<close> and the chunks it has been handed so far.
\<close>

record ('c, 'r, 'e) bridge =
  firstChunkSent :: bool
  initialPromise :: "(unit, 'e) promise"
  finalPromise :: "('r, 'e) promise"
  chain :: "('c option, 'e) promise list"
  nextChunk :: nat
  unhandled :: "'e list"
  reader :: reader_state
  received :: "'c list"

definition createPromise :: "('c, 'r, 'e) bridge \<Rightarrow> nat \<times> ('c, 'r, 'e) bridge" where
  "createPromise s = (length (chain s), s\<lparr>chain := chain s @ [Pending]\<rparr>)"

definition provideNextChunk :: "'c option \<Rightarrow> ('c, 'r, 'e) bridge \<Rightarrow> ('c, 'r, 'e) bridge" where
  "provideNextChunk v s = s\<lparr>chain := (chain s)[nextChunk s := resolve v (chain s ! nextChunk s)]\<rparr>"

definition finalResolve :: "'r \<Rightarrow> ('c, 'r, 'e) bridge \<Rightarrow> ('c, 'r, 'e) bridge" where
  "finalResolve r s = s\<lparr>finalPromise := resolve r (finalPromise s)\<rparr>"

definition finalReject :: "'e \<Rightarrow> ('c, 'r, 'e) bridge \<Rightarrow> ('c, 'r, 'e) bridge" where
  "finalReject e s = s\<lparr>finalPromise := reject e (finalPromise s)\<rparr>"

definition initialResolve :: "('c, 'r, 'e) bridge \<Rightarrow> ('c, 'r, 'e) bridge" where
  "initialResolve s = s\<lparr>initialPromise := resolve () (initialPromise s)\<rparr>"

definition initialReject :: "'e \<Rightarrow> ('c, 'r, 'e) bridge \<Rightarrow> ('c, 'r, 'e) bridge" where
  "initialReject e s = s\<lparr>initialPromise := reject e (initialPromise s)\<rparr>"

text \<open>
  The \<^verbatim>\<open>streamingCallback\<close> handed to \<^verbatim>\<open>generate\<close>:
  \<^verbatim>\<open>firstChunkSent = true; provideNextChunk(chunk); ({resolve: provideNextChunk, promise: nextChunk} = createPromise())\<close>.
\<close>

definition streamingCallback :: "'c \<Rightarrow> ('c, 'r, 'e) bridge \<Rightarrow> ('c, 'r, 'e) bridge" where
  "streamingCallback c s =
     (let s1 = s\<lparr>firstChunkSent := True\<rparr>;
          s2 = provideNextChunk (Some c) s1;
          (p, s3) = createPromise s2
      in s3\<lparr>nextChunk := p\<rparr>)"

text \<open>The handler given to \<^verbatim>\<open>.then\<close>: \<^verbatim>\<open>provideNextChunk(null); finalResolve(result)\<close>.\<close>

definition onFulfilled :: "'r \<Rightarrow> ('c, 'r, 'e) bridge \<Rightarrow> ('c, 'r, 'e) bridge" where
  "onFulfilled r s = finalResolve r (provideNextChunk None s)"

text \<open>
  \<^verbatim>\<open>.then\<close> is called with one argument only, so a rejection of the promise returned by
  \<^verbatim>\<open>generate\<close> runs no code of \<^verbatim>\<open>generateStream\<close>: it rejects the promise that \<^verbatim>\<open>.then\<close>
  returned, which nobody holds.
\<close>

definition onRejected :: "'e \<Rightarrow> ('c, 'r, 'e) bridge \<Rightarrow> ('c, 'r, 'e) bridge" where
  "onRejected e s = s\<lparr>unhandled := unhandled s @ [e]\<rparr>"

text \<open>
  The body of \<^verbatim>\<open>chunkStream\<close>, \<^verbatim>\<open>while (true) { const next = await nextChunk; if (!next) break; yield next; }\<close>,
  in two steps: evaluating \<^verbatim>\<open>await nextChunk\<close> reads the variable and suspends on that
  promise; once that promise is fulfilled the generator continues, and either finishes
  (\<^verbatim>\<open>null\<close>) or yields the chunk. Chunks are objects, hence truthy.
\<close>

definition reader_await :: "('c, 'r, 'e) bridge \<Rightarrow> ('c, 'r, 'e) bridge" where
  "reader_await s =
     (case reader s of NotAwaiting \<Rightarrow> s\<lparr>reader := Awaiting (nextChunk s)\<rparr> | _ \<Rightarrow> s)"

definition reader_resume :: "('c, 'r, 'e) bridge \<Rightarrow> ('c, 'r, 'e) bridge" where
  "reader_resume s =
     (case reader s of
        Awaiting p \<Rightarrow>
          (case chain s ! p of
             Fulfilled None \<Rightarrow> s\<lparr>reader := Finished\<rparr>
           | Fulfilled (Some c) \<Rightarrow> s\<lparr>received := received s @ [c], reader := NotAwaiting\<rparr>
           | _ \<Rightarrow> s)
      | _ \<Rightarrow> s)"

subsection \<open>The executor of the promise returned by \<^verbatim>\<open>generateStream\<close>\<close>

text \<open>
  \<open>thrown\<close> is the exception, if any, that the \<^verbatim>\<open>try\<close> block raises synchronously; the
  \<^verbatim>\<open>catch\<close> block is the \<open>Some\<close> branch. After the \<^verbatim>\<open>try\<close> statement comes \<^verbatim>\<open>initialResolve\<close>,
  unless the \<^verbatim>\<open>catch\<close> block returned.
\<close>

definition executor :: "'e option \<Rightarrow> ('c, 'r, 'e) bridge" where
  "executor thrown =
     (let s0 = \<lparr>firstChunkSent = False, initialPromise = Pending, finalPromise = Pending,
                chain = [Pending], nextChunk = 0, unhandled = [],
                reader = NotAwaiting, received = []\<rparr>
      in case thrown of
           None \<Rightarrow> initialResolve s0
         | Some e \<Rightarrow>
             if \<not> firstChunkSent s0 then initialReject e s0
             else initialResolve (finalReject e (provideNextChunk None s0)))"

text \<open>
  \<^verbatim>\<open>generate\<close> is declared \<^verbatim>\<open>async\<close>: a call returns a promise, and an exception raised in its
  body (or by the model it runs) rejects that promise instead of being thrown at the call
  site. \<^verbatim>\<open>.then\<close> does not throw either. So the \<^verbatim>\<open>try\<close> block of \<^verbatim>\<open>generateStream\<close> always
  completes normally. The body of \<^verbatim>\<open>generate\<close> starts with an \<^verbatim>\<open>await\<close>, so no callback runs
  before the executor has finished.
\<close>

definition generateStream :: "('c, 'r, 'e) bridge" where
  "generateStream = executor None"

subsection \<open>Producer and reader, interleaved\<close>

text \<open>
  What happens after the executor, in the order of the event loop: the producer (the
  \<^verbatim>\<open>generate\<close> call) invokes the callback, fulfils or rejects its promise; the reader
  evaluates \<^verbatim>\<open>await nextChunk\<close> or continues after it. A reader step that is not enabled
  leaves the state unchanged.
\<close>

datatype ('c, 'r, 'e) event =
    Callback 'c
  | ProducerResolves 'r
  | ProducerRejects 'e
  | ReaderAwait
  | ReaderResume

fun step :: "('c, 'r, 'e) bridge \<Rightarrow> ('c, 'r, 'e) event \<Rightarrow> ('c, 'r, 'e) bridge" where
  "step s (Callback c) = streamingCallback c s"
| "step s (ProducerResolves r) = onFulfilled r s"
| "step s (ProducerRejects e) = onRejected e s"
| "step s ReaderAwait = reader_await s"
| "step s ReaderResume = reader_resume s"

definition run_from :: "('c, 'r, 'e) bridge \<Rightarrow> ('c, 'r, 'e) event list \<Rightarrow> ('c, 'r, 'e) bridge" where
  "run_from s sched = foldl step s sched"

definition run_generateStream :: "('c, 'r, 'e) event list \<Rightarrow> ('c, 'r, 'e) bridge" where
  "run_generateStream sched = run_from generateStream sched"

text \<open>The chunks the producer emitted, in emission order.\<close>

fun emitted :: "('c, 'r, 'e) event list \<Rightarrow> 'c list" where
  "emitted [] = []"
| "emitted (Callback c # es) = c # emitted es"
| "emitted (_ # es) = emitted es"

subsection \<open>Schedules and invariants used in the proofs\<close>

text \<open>
  The producer's part of a schedule; a schedule is \<open>attentive\<close> when at every callback the
  reader is already suspended on the promise the callback is about to fulfil. The remaining
  predicates are invariants of \<open>step\<close>, stated against the chunks emitted so far.
\<close>

definition chain_inv :: "('c, 'r, 'e) bridge \<Rightarrow> 'c list \<Rightarrow> bool" where
  "chain_inv s E \<longleftrightarrow>
     length (chain s) = Suc (length E) \<and> nextChunk s = length E \<and>
     (\<forall>i<length E. chain s ! i = Fulfilled (Some (E ! i)) \<or> chain s ! i = Fulfilled None) \<and>
     (chain s ! length E = Pending \<or> chain s ! length E = Fulfilled None)"

definition reader_inv :: "('c, 'r, 'e) bridge \<Rightarrow> 'c list \<Rightarrow> bool" where
  "reader_inv s E \<longleftrightarrow>
     (case reader s of
        Awaiting p \<Rightarrow> p \<le> length E \<and> subseq (received s) (take p E)
      | _ \<Rightarrow> subseq (received s) E)"

fun is_producer_event :: "('c, 'r, 'e) event \<Rightarrow> bool" where
  "is_producer_event ReaderAwait = False"
| "is_producer_event ReaderResume = False"
| "is_producer_event _ = True"

definition producer_events :: "('c, 'r, 'e) event list \<Rightarrow> ('c, 'r, 'e) event list" where
  "producer_events sched = filter is_producer_event sched"

fun attentive :: "('c, 'r, 'e) bridge \<Rightarrow> ('c, 'r, 'e) event list \<Rightarrow> bool" where
  "attentive s [] = True"
| "attentive s (Callback c # es) =
     (reader s = Awaiting (nextChunk s) \<and> attentive (step s (Callback c)) es)"
| "attentive s (e # es) = attentive (step s e) es"

definition blind_to :: "('c, 'r, 'e) bridge \<Rightarrow> 'c \<Rightarrow> bool" where
  "blind_to s c \<longleftrightarrow>
     c \<notin> set (received s) \<and> nextChunk s < length (chain s) \<and>
     chain s ! nextChunk s \<noteq> Fulfilled (Some c) \<and>
     (\<forall>p. reader s = Awaiting p \<longrightarrow> p < length (chain s) \<and> chain s ! p \<noteq> Fulfilled (Some c))"

definition in_step :: "('c, 'r, 'e) bridge \<Rightarrow> 'c list \<Rightarrow> bool" where
  "in_step s E \<longleftrightarrow>
     length (chain s) = Suc (length E) \<and> nextChunk s = length E \<and>
     (\<forall>i<length E. chain s ! i = Fulfilled (Some (E ! i))) \<and>
     (received s = E \<and> reader s \<in> {Awaiting (length E), NotAwaiting, Finished} \<or>
      E \<noteq> [] \<and> reader s = Awaiting (length E - 1) \<and> received s = butlast E)"

definition pre_inv :: "('c, 'r, 'e) bridge \<Rightarrow> 'c list \<Rightarrow> bool" where
  "pre_inv s E \<longleftrightarrow> in_step s E \<and> chain s ! length E = Pending \<and> finalPromise s = Pending"

definition post_inv :: "('c, 'r, 'e) bridge \<Rightarrow> 'c list \<Rightarrow> 'r \<Rightarrow> bool" where
  "post_inv s E v \<longleftrightarrow> in_step s E \<and> chain s ! length E = Fulfilled None \<and> finalPromise s = Fulfilled v"

text \<open>
  A schedule in which the producer's promise is never fulfilled, and the invariant of such
  schedules: the reader has not finished, \<^verbatim>\<open>response\<close> is pending, and no promise of the
  chain carries \<^verbatim>\<open>null\<close>.
\<close>

definition unsettled :: "('c, 'r, 'e) bridge \<Rightarrow> bool" where
  "unsettled s \<longleftrightarrow>
     reader s \<noteq> Finished \<and> finalPromise s = Pending \<and> initialPromise s = Fulfilled () \<and>
     nextChunk s < length (chain s) \<and>
     (\<forall>p < length (chain s). chain s ! p \<noteq> Fulfilled None) \<and>
     (\<forall>p. reader s = Awaiting p \<longrightarrow> p < length (chain s))"

fun never_resolves :: "('c, 'r, 'e) event list \<Rightarrow> bool" where
  "never_resolves [] = True"
| "never_resolves (ProducerResolves r # es) = False"
| "never_resolves (_ # es) = never_resolves es"

section \<open>\<^verbatim>\<open>GenerateResponse.raw\<close> (js/ai/src/generate.ts)\<close>

text \<open>
  Of the fields of \<^verbatim>\<open>GenerateResponse\<close> the getter \<^verbatim>\<open>raw\<close> mentions \<^verbatim>\<open>custom\<close> only. The class
  declares \<^verbatim>\<open>raw\<close> as an accessor without a setter and the constructor assigns no own
  property of that name, so \<^verbatim>\<open>this.raw\<close> inside the getter calls the getter again.
\<close>

record 'u generate_response =
  custom :: 'u

text \<open>\<^verbatim>\<open>a ?? b\<close>: \<open>b\<close> when \<open>a\<close> is \<^verbatim>\<open>null\<close> or \<^verbatim>\<open>undefined\<close> (\<open>None\<close>), otherwise \<open>a\<close>.\<close>

definition nullish_coalescing :: "'u option \<Rightarrow> 'u option \<Rightarrow> 'u option" where
  "nullish_coalescing a b = (case a of None \<Rightarrow> b | Some _ \<Rightarrow> a)"

text \<open>
  \<^verbatim>\<open>get raw(): unknown { return this.raw ?? this.custom; }\<close>. The result is \<open>None\<close> when the
  evaluation does not return.
\<close>

partial_function (option) raw :: "'u generate_response \<Rightarrow> 'u option option" where
  "raw this = Option.bind (raw this) (\<lambda>r. Some (nullish_coalescing r (Some (custom this))))"

text \<open>
  The same getter on a call stack with room for \<open>frames\<close> more calls: the engine raises
  \<^verbatim>\<open>RangeError\<close> (maximum call stack size exceeded) when the stack is exhausted.
\<close>

datatype js_error = RangeError

fun raw_on_stack :: "nat \<Rightarrow> 'u generate_response \<Rightarrow> js_error + 'u option" where
  "raw_on_stack 0 this = Inl RangeError"
| "raw_on_stack (Suc frames) this =
     (case raw_on_stack frames this of
        Inl e \<Rightarrow> Inl e
      | Inr r \<Rightarrow> Inr (nullish_coalescing r (Some (custom this))))"

section \<open>\<^verbatim>\<open>toGenerateRequest\<close> and \<^verbatim>\<open>generate\<close> (js/ai/src/generate.ts)\<close>

subsection \<open>Options\<close>

text \<open>
  \<^verbatim>\<open>system\<close> and \<^verbatim>\<open>prompt\<close> are \<^verbatim>\<open>string | Part | Part[]\<close>; \<^verbatim>\<open>model\<close> is a name, an action or a
  reference; a tool is a name, an action (with optional \<^verbatim>\<open>metadata.type\<close>) or another object
  (with or without a \<^verbatim>\<open>name\<close>). An absent option is \<open>None\<close>. The options \<^verbatim>\<open>config\<close>, \<^verbatim>\<open>docs\<close>,
  \<^verbatim>\<open>output\<close>, \<^verbatim>\<open>returnToolRequests\<close>, \<^verbatim>\<open>streamingCallback\<close> and \<^verbatim>\<open>use\<close> are copied into the request
  and decide no branch; they are left out.
\<close>

datatype role = System | User | Model | Tool

datatype part = TextPart string | MediaPart string | DataPart string
  | ToolRequestPart string | ToolResponsePart string

record message_data =
  role :: role
  content :: "part list"

datatype prompt_arg = PromptString string | PromptPart part | PromptParts "part list"

datatype 'a model_arg = ModelName string | ModelAction 'a | ModelReference string

datatype tool_arg = ToolName string | ToolAction "string option" string | ToolObject "string option"

record 'a generate_options =
  model :: "'a model_arg option"
  system :: "prompt_arg option"
  prompt :: "prompt_arg option"
  messages :: "message_data list option"
  tools :: "tool_arg list option"

text \<open>
  \<^verbatim>\<open>new Error(message)\<close> thrown by this file, or a failure raised by code outside it (the
  role inference, the tool resolver, the model).
\<close>

datatype 'x error = Error string | Collaborator 'x

text \<open>
  \<^verbatim>\<open>if (options.system)\<close>, \<^verbatim>\<open>if (options.prompt)\<close>: \<^verbatim>\<open>undefined\<close> and the empty string are falsy,
  objects and arrays (also empty ones) are truthy.
\<close>

fun truthy_prompt :: "prompt_arg option \<Rightarrow> bool" where
  "truthy_prompt None = False"
| "truthy_prompt (Some (PromptString s)) = (s \<noteq> [])"
| "truthy_prompt (Some (PromptPart p)) = True"
| "truthy_prompt (Some (PromptParts ps)) = True"

text \<open>
  The message built from \<^verbatim>\<open>system\<close> (initial role \<^verbatim>\<open>'system'\<close>) or \<^verbatim>\<open>prompt\<close> (\<^verbatim>\<open>'user'\<close>), in the
  order of the source's tests: string, array, single part. \<^verbatim>\<open>inferRoleFromParts\<close> comes from
  generateAction.js, which is not among the sources; it is a parameter here and may fail.
\<close>

fun prompt_message ::
  "(part list \<Rightarrow> 'x + role) \<Rightarrow> role \<Rightarrow> prompt_arg \<Rightarrow> 'x error + message_data" where
  "prompt_message inferRoleFromParts r (PromptString s) = Inr \<lparr>role = r, content = [TextPart s]\<rparr>"
| "prompt_message inferRoleFromParts r (PromptParts ps) =
     (case inferRoleFromParts ps of
        Inl x \<Rightarrow> Inl (Collaborator x)
      | Inr inferred \<Rightarrow> Inr \<lparr>role = inferred, content = ps\<rparr>)"
| "prompt_message inferRoleFromParts r (PromptPart p) =
     (case inferRoleFromParts [p] of
        Inl x \<Rightarrow> Inl (Collaborator x)
      | Inr inferred \<Rightarrow> Inr \<lparr>role = inferred, content = [p]\<rparr>)"

text \<open>
  The statements that fill \<^verbatim>\<open>messages\<close>, which \<^verbatim>\<open>toGenerateRequest\<close> (lines 371 to 400) and
  \<^verbatim>\<open>generate\<close> (lines 574 to 603) both contain, statement for statement: the system message,
  then \<^verbatim>\<open>options.messages\<close>, then the prompt message. \<^verbatim>\<open>if (options.messages)\<close> holds for
  every array, the empty one included.
\<close>

definition assemble_messages ::
  "(part list \<Rightarrow> 'x + role) \<Rightarrow> 'a generate_options \<Rightarrow> 'x error + message_data list" where
  "assemble_messages inferRoleFromParts options =
     (case (if truthy_prompt (system options)
            then (case prompt_message inferRoleFromParts System (the (system options)) of
                    Inl e \<Rightarrow> Inl e
                  | Inr systemMessage \<Rightarrow> Inr [systemMessage])
            else Inr []) of
        Inl e \<Rightarrow> Inl e
      | Inr messages1 \<Rightarrow>
          (let messages2 = (case messages options of Some ms \<Rightarrow> messages1 @ ms | None \<Rightarrow> messages1)
           in if truthy_prompt (prompt options)
              then (case prompt_message inferRoleFromParts User (the (prompt options)) of
                      Inl e \<Rightarrow> Inl e
                    | Inr promptMessage \<Rightarrow> Inr (messages2 @ [promptMessage]))
              else Inr messages2))"

record 't generate_request =
  req_messages :: "message_data list"
  req_tools :: "'t list"

subsection \<open>\<^verbatim>\<open>toGenerateRequest\<close>\<close>

text \<open>The length check comes before \<^verbatim>\<open>resolveTools\<close>, which may fail.\<close>

definition toGenerateRequest ::
  "(part list \<Rightarrow> 'x + role) \<Rightarrow> (tool_arg list \<Rightarrow> 'x + 't list) \<Rightarrow> 'a generate_options
     \<Rightarrow> 'x error + 't generate_request" where
  "toGenerateRequest inferRoleFromParts resolveTools options =
     (case assemble_messages inferRoleFromParts options of
        Inl e \<Rightarrow> Inl e
      | Inr msgs \<Rightarrow>
          if length msgs = 0
          then Inl (Error ''at least one message is required in generate request'')
          else case tools options of
                 None \<Rightarrow> Inr \<lparr>req_messages = msgs, req_tools = []\<rparr>
               | Some ts \<Rightarrow>
                   (case resolveTools ts of
                      Inl x \<Rightarrow> Inl (Collaborator x)
                    | Inr defs \<Rightarrow> Inr \<lparr>req_messages = msgs, req_tools = defs\<rparr>))"

subsection \<open>\<^verbatim>\<open>generate\<close>\<close>

text \<open>\<^verbatim>\<open>if (!model) throw new Error('Model is required.')\<close> in \<^verbatim>\<open>resolveModel\<close>.\<close>

fun truthy_model :: "'a model_arg option \<Rightarrow> bool" where
  "truthy_model None = False"
| "truthy_model (Some (ModelName n)) = (n \<noteq> [])"
| "truthy_model (Some _) = True"

text \<open>
  A name or a reference is looked up in the registry under \<^verbatim>\<open>/model/<name>\<close>; the lookup may
  find nothing. An action is taken as it is.
\<close>

definition resolveModel ::
  "(string \<Rightarrow> 'a option) \<Rightarrow> 'a generate_options \<Rightarrow> 'x error + 'a option" where
  "resolveModel lookupAction options =
     (if \<not> truthy_model (model options) then Inl (Error ''Model is required.'')
      else case the (model options) of
             ModelName n \<Rightarrow> Inr (lookupAction (''/model/'' @ n))
           | ModelAction a \<Rightarrow> Inr (Some a)
           | ModelReference n \<Rightarrow> Inr (lookupAction (''/model/'' @ n)))"

text \<open>The name in \<^verbatim>\<open>Model ${modelId} not found\<close>.\<close>

fun modelId :: "('a \<Rightarrow> string) \<Rightarrow> 'a model_arg \<Rightarrow> string" where
  "modelId action_name (ModelName n) = n"
| "modelId action_name (ModelAction a) = action_name a"
| "modelId action_name (ModelReference n) = n"

text \<open>
  The conversion of one tool to an action reference; \<open>stringify\<close> stands for
  \<^verbatim>\<open>JSON.stringify\<close> in the error message.
\<close>

fun tool_ref :: "(tool_arg \<Rightarrow> string) \<Rightarrow> tool_arg \<Rightarrow> 'x error + string" where
  "tool_ref stringify (ToolName t) = Inr (''/tool/'' @ t)"
| "tool_ref stringify (ToolAction ty n) =
     Inr (''/'' @ (case ty of Some k \<Rightarrow> k | None \<Rightarrow> ''undefined'') @ ''/'' @ n)"
| "tool_ref stringify (ToolObject nm) =
     (case nm of
        Some n \<Rightarrow>
          if n \<noteq> [] then Inr (''/tool/'' @ n)
          else Inl (Error (''Unable to determine type of of tool: '' @ stringify (ToolObject nm)))
      | None \<Rightarrow> Inl (Error (''Unable to determine type of of tool: '' @ stringify (ToolObject nm))))"

fun tool_refs :: "(tool_arg \<Rightarrow> string) \<Rightarrow> tool_arg list \<Rightarrow> 'x error + string list" where
  "tool_refs stringify [] = Inr []"
| "tool_refs stringify (t # ts) =
     (case tool_ref stringify t of
        Inl e \<Rightarrow> Inl e
      | Inr r \<Rightarrow> (case tool_refs stringify ts of Inl e \<Rightarrow> Inl e | Inr rs \<Rightarrow> Inr (r # rs)))"

definition convert_tools ::
  "(tool_arg \<Rightarrow> string) \<Rightarrow> 'a generate_options \<Rightarrow> 'x error + string list option" where
  "convert_tools stringify options =
     (case tools options of
        None \<Rightarrow> Inr None
      | Some ts \<Rightarrow> (case tool_refs stringify ts of Inl e \<Rightarrow> Inl e | Inr rs \<Rightarrow> Inr (Some rs)))"

record generate_params =
  param_model :: string
  param_messages :: "message_data list"
  param_tools :: "string list option"

text \<open>What \<^verbatim>\<open>generate\<close> calls outside this file.\<close>

record ('a, 'x, 't, 'r) collaborators =
  lookupAction :: "string \<Rightarrow> 'a option"
  action_name :: "'a \<Rightarrow> string"
  inferRoleFromParts :: "part list \<Rightarrow> 'x + role"
  stringify_tool :: "tool_arg \<Rightarrow> string"
  resolveTools :: "tool_arg list \<Rightarrow> 'x + 't list"
  generateHelper :: "generate_params \<Rightarrow> 'x + 'r"

text \<open>
  The second component counts the calls of \<^verbatim>\<open>generateHelper\<close>, which runs the model action.
  In \<^verbatim>\<open>new GenerateResponse(await generateHelper(...), await toGenerateRequest(...))\<close> the
  helper is awaited first.
\<close>

definition generate ::
  "('a, 'x, 't, 'r) collaborators \<Rightarrow> 'a generate_options
     \<Rightarrow> ('x error + 'r \<times> 't generate_request) \<times> nat" where
  "generate env options =
     (case resolveModel (lookupAction env) options of
        Inl e \<Rightarrow> (Inl e, 0)
      | Inr None \<Rightarrow>
          (Inl (Error (''Model '' @ modelId (action_name env) (the (model options)) @ '' not found'')), 0)
      | Inr (Some m) \<Rightarrow>
          (case convert_tools (stringify_tool env) options of
             Inl e \<Rightarrow> (Inl e, 0)
           | Inr trefs \<Rightarrow>
               (case assemble_messages (inferRoleFromParts env) options of
                  Inl e \<Rightarrow> (Inl e, 0)
                | Inr msgs \<Rightarrow>
                    if length msgs = 0
                    then (Inl (Error ''at least one message is required in generate request''), 0)
                    else case generateHelper env
                                \<lparr>param_model = action_name env m, param_messages = msgs,
                                 param_tools = trefs\<rparr> of
                           Inl x \<Rightarrow> (Inl (Collaborator x), 1)
                         | Inr r \<Rightarrow>
                             (case toGenerateRequest (inferRoleFromParts env) (resolveTools env) options of
                                Inl e \<Rightarrow> (Inl e, 1)
                              | Inr req \<Rightarrow> (Inr (r, req), 1)))))"

text \<open>
  \<^verbatim>\<open>generate\<close> is an \<^verbatim>\<open>async\<close> function: what its body returns or throws settles the promise
  that the caller holds. For \<^verbatim>\<open>generateStream\<close> this is the producer's last event.
\<close>

definition generate_settles ::
  "('a, 'x, 't, 'r) collaborators \<Rightarrow> 'a generate_options
     \<Rightarrow> ('c, 'r \<times> 't generate_request, 'x error) event" where
  "generate_settles env options =
     (case fst (generate env options) of
        Inl e \<Rightarrow> ProducerRejects e
      | Inr response \<Rightarrow> ProducerResolves response)"

text \<open>Collaborators for the concrete evaluations: a registry that knows the model \<open>echo\<close>.\<close>

definition test_env :: "(unit, unit, unit, string) collaborators" where
  "test_env =
     \<lparr>lookupAction = (\<lambda>n. if n = ''/model/echo'' then Some () else None),
      action_name = (\<lambda>_. ''echo''),
      inferRoleFromParts = (\<lambda>_. Inr User),
      stringify_tool = (\<lambda>_. ''{}''),
      resolveTools = (\<lambda>_. Inr []),
      generateHelper = (\<lambda>_. Inr ''response'')\<rparr>"

section \<open>The \<^verbatim>\<open>/api/streamAction\<close> handler (genkit-tools/common/src/server/server.ts)\<close>

subsection \<open>\<^verbatim>\<open>JSON.stringify\<close>\<close>

text \<open>
  The values the handler serialises: chunks and results that the runner parsed from JSON.
  \<^verbatim>\<open>JSON.stringify\<close> with one argument inserts no white space and escapes, inside strings,
  the quote, the backslash and every character below U+0020. How it writes a number
  (decimal or exponent notation, \<^verbatim>\<open>null\<close> for a non-finite one) is the engine's
  \<^verbatim>\<open>Number::toString\<close>; the numbers are an abstract type here and their text is the parameter
  \<open>numberToString\<close>.
\<close>

datatype 'n json = JNull | JBool bool | JNumber 'n | JString string
  | JArray "'n json list" | JObject "(string \<times> 'n json) list"

definition hex_digit :: "nat \<Rightarrow> char" where
  "hex_digit n = ''0123456789abcdef'' ! (n mod 16)"

definition quote_char :: "char \<Rightarrow> string" where
  "quote_char c =
     (if c = CHR 0x22 then [CHR 0x5C, CHR 0x22]
      else if c = CHR 0x5C then [CHR 0x5C, CHR 0x5C]
      else if c = CHR 0x08 then [CHR 0x5C, CHR ''b'']
      else if c = CHR 0x0C then [CHR 0x5C, CHR ''f'']
      else if c = CHR 0x0A then [CHR 0x5C, CHR ''n'']
      else if c = CHR 0x0D then [CHR 0x5C, CHR ''r'']
      else if c = CHR 0x09 then [CHR 0x5C, CHR ''t'']
      else if of_char c < (0x20 :: nat)
        then [CHR 0x5C, CHR ''u'', CHR ''0'', CHR ''0'',
              hex_digit (of_char c div 16), hex_digit (of_char c)]
      else [c])"

definition quote :: "string \<Rightarrow> string" where
  "quote s = [CHR 0x22] @ concat (map quote_char s) @ [CHR 0x22]"

fun join :: "string \<Rightarrow> string list \<Rightarrow> string" where
  "join sep [] = []"
| "join sep [x] = x"
| "join sep (x # y # ys) = x @ sep @ join sep (y # ys)"

fun stringify :: "('n \<Rightarrow> string) \<Rightarrow> 'n json \<Rightarrow> string" where
  "stringify numberToString JNull = ''null''"
| "stringify numberToString (JBool b) = (if b then ''true'' else ''false'')"
| "stringify numberToString (JNumber i) = numberToString i"
| "stringify numberToString (JString s) = quote s"
| "stringify numberToString (JArray xs) =
     ''['' @ join '','' (map (stringify numberToString) xs) @ '']''"
| "stringify numberToString (JObject kvs) =
     ''{'' @ join '','' (map (\<lambda>(k, v). quote k @ '':'' @ stringify numberToString v) kvs) @ ''}''"

subsection \<open>The handler\<close>

text \<open>The part of the Express response the handler acts on.\<close>

record http_response =
  statusCode :: "nat option"
  body :: string
  ended :: bool

definition writeHead :: "nat \<Rightarrow> http_response \<Rightarrow> http_response" where
  "writeHead code res = res\<lparr>statusCode := Some code\<rparr>"

definition res_write :: "string \<Rightarrow> http_response \<Rightarrow> http_response" where
  "res_write s res = res\<lparr>body := body res @ s\<rparr>"

definition end_response :: "http_response \<Rightarrow> http_response" where
  "end_response res = res\<lparr>ended := True\<rparr>"

text \<open>
  \<^verbatim>\<open>runner.runAction\<close> lives outside this file. Seen from the handler it invokes the callback
  some number of times, in order, and then its promise is fulfilled with a result or
  rejected.
\<close>

datatype ('n, 'e) action_outcome = Resolves "'n json" | Rejects 'e

text \<open>
  \<^verbatim>\<open>res.writeHead(200, ...)\<close>; for each callback \<^verbatim>\<open>res.write(JSON.stringify(chunk) + '\n')\<close>;
  after the \<^verbatim>\<open>await\<close>, \<^verbatim>\<open>res.write(JSON.stringify(result)); res.end()\<close>. The handler has no
  \<^verbatim>\<open>try\<close>: when \<^verbatim>\<open>runAction\<close> rejects, the \<^verbatim>\<open>await\<close> throws, the two statements after it do not
  run, and the handler's own promise is rejected with that error (second component).
\<close>

definition streamAction ::
  "('n \<Rightarrow> string) \<Rightarrow> 'n json list \<Rightarrow> ('n, 'e) action_outcome \<Rightarrow> http_response \<times> 'e option" where
  "streamAction numberToString chunks settled =
     (let res0 = writeHead 200 \<lparr>statusCode = None, body = [], ended = False\<rparr>;
          res1 = foldl (\<lambda>res chunk. res_write (stringify numberToString chunk @ [CHR 0x0A]) res)
                   res0 chunks
      in case settled of
           Resolves result \<Rightarrow>
             (end_response (res_write (stringify numberToString result) res1), None)
         | Rejects e \<Rightarrow> (res1, Some e))"

text \<open>How a consumer cuts the body into records: at every line feed.\<close>

fun split_records :: "string \<Rightarrow> string list" where
  "split_records [] = [[]]"
| "split_records (c # cs) =
     (if c = CHR 0x0A then [] # split_records cs
      else case split_records cs of
             r # rs \<Rightarrow> (c # r) # rs
           | [] \<Rightarrow> [[c]])"

section \<open>The step memoizer and the flow engine\<close>

text \<open>
  The flow library (\<^verbatim>\<open>run\<close>, \<^verbatim>\<open>interrupt\<close>, \<^verbatim>\<open>durableFlow\<close> of \<^verbatim>\<open>@genkit-ai/flow\<close>) is not among the
  sources; only flows that call it are (\<^verbatim>\<open>basic\<close>, \<^verbatim>\<open>kitchensink\<close>). Its definitions below are
  modelled from the specification.
\<close>

subsection \<open>Data model\<close>

text \<open>Modelled from the spec: a step's outcome, \<^verbatim>\<open>{ok: value} | {err: message}\<close>.\<close>

datatype 'v outcome = Ok 'v | Err string

text \<open>
  Modelled from the spec: the \<^verbatim>\<open>StepRecord\<close>, with key \<^verbatim>\<open>(stepName, occurrenceIndex)\<close>.
\<close>

record 'v step_record =
  stepName :: string
  occurrenceIndex :: nat
  outcome :: "'v outcome"


text \<open>
  Modelled from the spec: \<^verbatim>\<open>pendingSuspension\<close>, a sleep with its \<^verbatim>\<open>wakeAt\<close>, an interrupt with
  its name and input schema (a predicate on values), or a wait on sub-flows. Of the three
  primitives only the interrupt is modelled as an operation.
\<close>

datatype 'v suspension =
    Sleep nat
  | Interrupt string "'v \<Rightarrow> bool"
  | SubflowWait "string list"


subsection \<open>Flow bodies\<close>




subsection \<open>\<^verbatim>\<open>runStep\<close> and \<^verbatim>\<open>interrupt\<close>\<close>







subsection \<open>\<^verbatim>\<open>start\<close> and \<^verbatim>\<open>resume\<close>\<close>





subsection \<open>A flow that runs a step name twice around a suspension\<close>




section \<open>The fan-out executor\<close>

text \<open>
  \<^verbatim>\<open>runMap\<close> of \<^verbatim>\<open>@genkit-ai/flow\<close> is not among the sources; \<^verbatim>\<open>simpleFanout\<close> calls it. The
  executor below is modelled from the specification, without the memoization of each
  invocation as a step.
\<close>

text \<open>
  Modelled from the spec: the state of one \<^verbatim>\<open>map(items, concurrencyLimit, fn)\<close>, the \<^verbatim>\<open>runMap\<close>
  that is not among the sources: the index of the next item to launch, the indices of the
  invocations in flight, one result slot per item, and the first failure.
\<close>

record 'b fanout =
  nextIndex :: nat
  inFlight :: "nat list"
  slots :: "'b option list"
  failure :: "string option"

text \<open>Modelled from the spec: launching the invocation for the next item.\<close>

definition launch :: "'b fanout \<Rightarrow> 'b fanout" where
  "launch st = st\<lparr>inFlight := inFlight st @ [nextIndex st], nextIndex := Suc (nextIndex st)\<rparr>"

text \<open>
  Modelled from the spec: completion order is not determined by the executor. \<open>sched\<close>
  chooses, at each completion, which invocation in flight finishes next.
\<close>

definition pick :: "nat list \<Rightarrow> 'b fanout \<Rightarrow> nat" where
  "pick sched st = (case sched of [] \<Rightarrow> 0 | c # _ \<Rightarrow> c mod length (inFlight st))"

text \<open>
  Modelled from the spec: a finished invocation stores its value in the slot of its own
  item; a failed one makes the whole operation fail, the first failure being kept.
\<close>

definition complete :: "'a list \<Rightarrow> ('a \<Rightarrow> 'b outcome) \<Rightarrow> nat \<Rightarrow> 'b fanout \<Rightarrow> 'b fanout" where
  "complete items fn k st =
     (let i = inFlight st ! k;
          st1 = st\<lparr>inFlight := take k (inFlight st) @ drop (Suc k) (inFlight st)\<rparr>
      in case fn (items ! i) of
           Ok y \<Rightarrow> st1\<lparr>slots := (slots st1)[i := Some y]\<rparr>
         | Err e \<Rightarrow> st1\<lparr>failure := Some (case failure st1 of None \<Rightarrow> e | Some e0 \<Rightarrow> e0)\<rparr>)"

text \<open>Modelled from the spec: the results array, once every slot is filled.\<close>

fun collect :: "'b option list \<Rightarrow> 'b list option" where
  "collect [] = Some []"
| "collect (None # xs) = None"
| "collect (Some y # xs) = map_option ((#) y) (collect xs)"

text \<open>
  Modelled from the spec: with nothing in flight the operation fails if an invocation
  failed, and otherwise returns the results. \<open>None\<close> is an executor that never returns: items
  are left and none can be launched.
\<close>

definition finish :: "'a list \<Rightarrow> 'b fanout \<Rightarrow> (string + 'b list) option" where
  "finish items st =
     (case failure st of
        Some e \<Rightarrow> Some (Inl e)
      | None \<Rightarrow> if nextIndex st < length items then None else map_option Inr (collect (slots st)))"

text \<open>
  Modelled from the spec: launch while fewer than \<^verbatim>\<open>concurrencyLimit\<close> invocations are in
  flight, items are left and nothing has failed; otherwise let one invocation in flight
  complete. Invocations already started finish after a failure; no new ones start.
\<close>

function fanout_loop ::
  "nat list \<Rightarrow> 'a list \<Rightarrow> nat \<Rightarrow> ('a \<Rightarrow> 'b outcome) \<Rightarrow> 'b fanout \<Rightarrow> (string + 'b list) option" where
  "fanout_loop sched items limit fn st =
     (if failure st = None \<and> length (inFlight st) < limit \<and> nextIndex st < length items
      then fanout_loop sched items limit fn (launch st)
      else if inFlight st = [] then finish items st
      else fanout_loop (tl sched) items limit fn (complete items fn (pick sched st) st))"
  by pat_completeness auto
termination
proof (relation "measure (\<lambda>(sched, items, limit, fn, st).
          2 * (length items - nextIndex st) + length (inFlight st))")
  show "wf (measure (\<lambda>(sched :: nat list, items :: 'a list, limit :: nat, fn :: 'a \<Rightarrow> 'b outcome, st :: 'b fanout).
          2 * (length items - nextIndex st) + length (inFlight st)))"
    by simp
next
  fix sched :: "nat list" and items :: "'a list" and limit :: nat
    and fn :: "'a \<Rightarrow> 'b outcome" and st :: "'b fanout"
  assume "failure st = None \<and> length (inFlight st) < limit \<and> nextIndex st < length items"
  then show "((sched, items, limit, fn, launch st), (sched, items, limit, fn, st))
      \<in> measure (\<lambda>(sched, items, limit, fn, st). 2 * (length items - nextIndex st) + length (inFlight st))"
    by (auto simp: launch_def)
next
  fix sched :: "nat list" and items :: "'a list" and limit :: nat
    and fn :: "'a \<Rightarrow> 'b outcome" and st :: "'b fanout"
  assume "inFlight st \<noteq> []"
  then have "pick sched st < length (inFlight st)"
    by (simp add: pick_def split: list.splits)
  then show "((tl sched, items, limit, fn, complete items fn (pick sched st) st), (sched, items, limit, fn, st))
      \<in> measure (\<lambda>(sched, items, limit, fn, st). 2 * (length items - nextIndex st) + length (inFlight st))"
    by (auto simp: complete_def Let_def split: outcome.splits)
qed

declare fanout_loop.simps [simp del]

text \<open>Modelled from the spec: \<^verbatim>\<open>map(items, concurrencyLimit, fn)\<close> under a completion order.\<close>

definition fanout_map ::
  "nat list \<Rightarrow> 'a list \<Rightarrow> nat \<Rightarrow> ('a \<Rightarrow> 'b outcome) \<Rightarrow> (string + 'b list) option" where
  "fanout_map sched items concurrencyLimit fn =
     fanout_loop sched items concurrencyLimit fn
       \<lparr>nextIndex = 0, inFlight = [], slots = replicate (length items) None, failure = None\<rparr>"

text \<open>The invariant of the loop.\<close>

definition fanout_inv :: "'a list \<Rightarrow> ('a \<Rightarrow> 'b outcome) \<Rightarrow> 'b fanout \<Rightarrow> bool" where
  "fanout_inv items fn st \<longleftrightarrow>
     length (slots st) = length items \<and> nextIndex st \<le> length items \<and>
     distinct (inFlight st) \<and> (\<forall>i \<in> set (inFlight st). i < nextIndex st) \<and>
     (\<forall>i < length items. \<forall>y. slots st ! i = Some y \<longrightarrow> fn (items ! i) = Ok y) \<and>
     (failure st = None \<longrightarrow>
        (\<forall>i < nextIndex st. i \<notin> set (inFlight st) \<longrightarrow> slots st ! i \<noteq> None)) \<and>
     (\<forall>e. failure st = Some e \<longrightarrow> (\<exists>x \<in> set items. fn x = Err e))"

chapter \<open>The proofs\<close>

section \<open>The streaming bridge: proofs\<close>

lemma run_from_Nil [simp]: "run_from s [] = s"
  by (simp add: run_from_def)

lemma run_from_Cons [simp]: "run_from s (e # es) = run_from (step s e) es"
  by (simp add: run_from_def)

lemma run_from_append: "run_from s (es @ fs) = run_from (run_from s es) fs"
  by (simp add: run_from_def)

lemma emitted_append: "emitted (es @ fs) = emitted es @ emitted fs"
  by (induction es rule: emitted.induct) simp_all

lemma chain_inv_init: "chain_inv generateStream []"
  by (simp add: chain_inv_def generateStream_def executor_def initialResolve_def)

lemma reader_inv_init: "reader_inv generateStream []"
  by (simp add: reader_inv_def generateStream_def executor_def initialResolve_def)

lemma chain_inv_step:
  assumes "chain_inv s E"
  shows "chain_inv (step s ev) (E @ emitted [ev])"
proof (cases ev)
  case (Callback c)
  from assms show ?thesis
    unfolding Callback chain_inv_def
    by (auto simp: streamingCallback_def provideNextChunk_def createPromise_def Let_def
        resolve_def nth_append nth_list_update less_Suc_eq split: promise.splits)
next
  case (ProducerResolves r)
  from assms show ?thesis
    unfolding ProducerResolves chain_inv_def
    by (auto simp: onFulfilled_def finalResolve_def provideNextChunk_def resolve_def
        nth_list_update split: promise.splits)
next
  case (ProducerRejects e)
  from assms show ?thesis
    unfolding ProducerRejects chain_inv_def by (simp add: onRejected_def)
next
  case ReaderAwait
  from assms show ?thesis
    unfolding ReaderAwait chain_inv_def
    by (simp add: reader_await_def split: reader_state.splits)
next
  case ReaderResume
  from assms show ?thesis
    unfolding ReaderResume chain_inv_def
    by (simp add: reader_resume_def split: reader_state.splits promise.splits option.splits)
qed

lemma reader_inv_step:
  assumes "chain_inv s E" and "reader_inv s E"
  shows "reader_inv (step s ev) (E @ emitted [ev])"
proof (cases ev)
  case (Callback c)
  from assms show ?thesis
    unfolding Callback reader_inv_def
    by (auto simp: streamingCallback_def provideNextChunk_def createPromise_def Let_def
        split: reader_state.splits)
next
  case (ProducerResolves r)
  from assms show ?thesis
    unfolding ProducerResolves reader_inv_def
    by (auto simp: onFulfilled_def finalResolve_def provideNextChunk_def split: reader_state.splits)
next
  case (ProducerRejects e)
  from assms show ?thesis
    unfolding ProducerRejects reader_inv_def
    by (auto simp: onRejected_def split: reader_state.splits)
next
  case ReaderAwait
  from assms show ?thesis
    unfolding ReaderAwait reader_inv_def
    by (auto simp: reader_await_def chain_inv_def split: reader_state.splits)
next
  case ReaderResume
  show ?thesis
  proof (cases "reader s")
    case (Awaiting p)
    with assms have p: "p \<le> length E" and sub: "subseq (received s) (take p E)"
      by (simp_all add: reader_inv_def)
    show ?thesis
    proof (cases "chain s ! p")
      case (Fulfilled v)
      show ?thesis
      proof (cases v)
        case None
        with Fulfilled Awaiting sub show ?thesis
          unfolding ReaderResume reader_inv_def
          by (auto simp: reader_resume_def intro: subseq_order.trans)
      next
        case (Some c)
        with Fulfilled assms(1) p have lt: "p < length E" and c: "c = E ! p"
          by (auto simp: chain_inv_def le_less)
        have "subseq (received s @ [c]) (take p E @ [E ! p])"
          using sub c by (simp add: subseq_append)
        also have "take p E @ [E ! p] = take (Suc p) E"
          using lt by (simp add: take_Suc_conv_app_nth)
        finally have "subseq (received s @ [c]) E"
          by (rule subseq_order.trans) (rule prefix_imp_subseq[OF take_is_prefix])
        with Fulfilled Some Awaiting show ?thesis
          unfolding ReaderResume reader_inv_def by (simp add: reader_resume_def)
      qed
    qed (use assms Awaiting in \<open>simp_all add: ReaderResume reader_inv_def reader_resume_def\<close>)
  qed (use assms in \<open>simp_all add: ReaderResume reader_inv_def reader_resume_def\<close>)
qed

lemma invs_run_from:
  assumes "chain_inv s E" and "reader_inv s E"
  shows "chain_inv (run_from s sched) (E @ emitted sched) \<and> reader_inv (run_from s sched) (E @ emitted sched)"
  using assms
proof (induction sched arbitrary: s E)
  case Nil
  then show ?case by simp
next
  case (Cons ev sched)
  have "chain_inv (step s ev) (E @ emitted [ev])"
    using Cons.prems(1) by (rule chain_inv_step)
  moreover have "reader_inv (step s ev) (E @ emitted [ev])"
    using Cons.prems by (rule reader_inv_step)
  ultimately show ?case using Cons.IH[of "step s ev" "E @ emitted [ev]"]
    using emitted_append[of "[ev]" sched] by simp
qed

lemma reader_inv_subseq: "reader_inv s E \<Longrightarrow> subseq (received s) E"
  by (auto simp: reader_inv_def split: reader_state.splits intro: subseq_order.trans)

lemma received_subseq_emitted: "subseq (received (run_generateStream sched)) (emitted sched)"
  using invs_run_from[OF chain_inv_init reader_inv_init, of sched]
  by (auto simp: run_generateStream_def dest: reader_inv_subseq)

lemma blind_to_step:
  assumes "blind_to s c" and "c \<notin> set (emitted [ev])"
  shows "blind_to (step s ev) c"
proof (cases ev)
  case (Callback c')
  with assms(2) have "c' \<noteq> c" by simp
  with assms(1) show ?thesis
    unfolding Callback blind_to_def
    by (auto simp: streamingCallback_def provideNextChunk_def createPromise_def Let_def
        resolve_def nth_append nth_list_update split: promise.splits)
next
  case (ProducerResolves r)
  from assms(1) show ?thesis
    unfolding ProducerResolves blind_to_def
    by (auto simp: onFulfilled_def finalResolve_def provideNextChunk_def resolve_def
        nth_list_update split: promise.splits)
next
  case (ProducerRejects e)
  from assms(1) show ?thesis
    unfolding ProducerRejects blind_to_def by (simp add: onRejected_def)
next
  case ReaderAwait
  from assms(1) show ?thesis
    unfolding ReaderAwait blind_to_def
    by (auto simp: reader_await_def split: reader_state.splits)
next
  case ReaderResume
  from assms(1) show ?thesis
    unfolding ReaderResume blind_to_def
    by (auto simp: reader_resume_def split: reader_state.splits promise.splits option.splits)
qed

lemma blind_to_run_from:
  assumes "blind_to s c" and "c \<notin> set (emitted sched)"
  shows "blind_to (run_from s sched) c"
  using assms
proof (induction sched arbitrary: s)
  case Nil
  then show ?case by simp
next
  case (Cons ev sched)
  from Cons.prems(2) emitted_append[of "[ev]" sched]
  have "c \<notin> set (emitted [ev])" and "c \<notin> set (emitted sched)" by auto
  with Cons.prems(1) Cons.IH[of "step s ev"] show ?case
    by (simp add: blind_to_step)
qed

lemma blind_to_after_unawaited_callback:
  assumes "chain_inv s E" and "reader_inv s E" and "c \<notin> set E"
    and "reader s \<noteq> Awaiting (nextChunk s)"
  shows "blind_to (streamingCallback c s) c"
proof -
  have rec: "c \<notin> set (received s)"
    using reader_inv_subseq[OF assms(2)] assms(3) by (auto dest: list_emb_set)
  have aw: "p < length E \<and> chain s ! p \<noteq> Fulfilled (Some c)" if "reader s = Awaiting p" for p
  proof -
    from that assms(2) have "p \<le> length E" by (simp add: reader_inv_def)
    moreover from that assms(1,4) have "p \<noteq> length E" by (auto simp: chain_inv_def)
    ultimately have lt: "p < length E" by simp
    with assms(1) have "chain s ! p = Fulfilled (Some (E ! p)) \<or> chain s ! p = Fulfilled None"
      by (simp add: chain_inv_def)
    moreover from lt assms(3) have "E ! p \<noteq> c" by (metis nth_mem)
    ultimately show ?thesis using lt by auto
  qed
  from assms(1) rec aw show ?thesis
    unfolding blind_to_def chain_inv_def
    by (auto simp: streamingCallback_def provideNextChunk_def createPromise_def Let_def
        nth_append nth_list_update)
qed

lemma unawaited_chunk_skipped:
  assumes "distinct (emitted (pre @ Callback c # post))"
    and "reader (run_generateStream pre) \<noteq> Awaiting (nextChunk (run_generateStream pre))"
  shows "c \<notin> set (received (run_generateStream (pre @ Callback c # post)))"
proof -
  let ?s = "run_generateStream pre"
  from assms(1) have notin: "c \<notin> set (emitted pre)" "c \<notin> set (emitted post)"
    by (simp_all add: emitted_append)
  have inv: "chain_inv ?s (emitted pre)" "reader_inv ?s (emitted pre)"
    using invs_run_from[OF chain_inv_init reader_inv_init, of pre]
    by (simp_all add: run_generateStream_def)
  have "blind_to (streamingCallback c ?s) c"
    using inv notin(1) assms(2) by (rule blind_to_after_unawaited_callback)
  then have "blind_to (run_from (streamingCallback c ?s) post) c"
    using notin(2) by (rule blind_to_run_from)
  then show ?thesis
    by (simp add: blind_to_def run_generateStream_def run_from_append)
qed

lemma filter_eq_snocD:
  "filter P es = xs @ [y] \<Longrightarrow> \<exists>pre post. es = pre @ y # post \<and> filter P pre = xs \<and> filter P post = []"
proof (induction es arbitrary: xs)
  case Nil
  then show ?case by simp
next
  case (Cons e es)
  show ?case
  proof (cases "P e")
    case False
    with Cons.prems have "filter P es = xs @ [y]" by simp
    from Cons.IH[OF this] obtain pre post
      where "es = pre @ y # post" "filter P pre = xs" "filter P post = []" by blast
    with False have "e # es = (e # pre) @ y # post \<and> filter P (e # pre) = xs \<and> filter P post = []"
      by simp
    then show ?thesis by blast
  next
    case True
    show ?thesis
    proof (cases xs)
      case Nil
      with True Cons.prems have "e # es = [] @ y # es \<and> filter P [] = xs \<and> filter P es = []"
        by simp
      then show ?thesis by blast
    next
      case (Cons x xs')
      with True Cons.prems have e: "e = x" and "filter P es = xs' @ [y]" by simp_all
      from Cons.IH[OF this(2)] obtain pre post
        where "es = pre @ y # post" "filter P pre = xs'" "filter P post = []" by blast
      with True e Cons
      have "e # es = (e # pre) @ y # post \<and> filter P (e # pre) = xs \<and> filter P post = []"
        by simp
      then show ?thesis by blast
    qed
  qed
qed

lemma producer_events_split:
  assumes "producer_events sched = map Callback cs @ [ProducerResolves v]"
  obtains pre post where "sched = pre @ ProducerResolves v # post"
    and "producer_events pre = map Callback cs" and "producer_events post = []"
  using filter_eq_snocD[OF assms[unfolded producer_events_def]]
  unfolding producer_events_def by blast

lemma emitted_callbacks:
  "producer_events es = map Callback cs \<Longrightarrow> emitted es = cs"
proof (induction es arbitrary: cs)
  case Nil
  then show ?case by (simp add: producer_events_def)
next
  case (Cons ev es)
  then show ?case
    by (cases ev) (auto simp: producer_events_def)
qed

lemma emitted_reader_only: "producer_events es = [] \<Longrightarrow> emitted es = []"
  using emitted_callbacks[of es "[]"] by simp

lemma finalPromise_callbacks:
  "producer_events es = map Callback cs \<Longrightarrow> finalPromise (run_from s es) = finalPromise s"
proof (induction es arbitrary: s cs)
  case Nil
  then show ?case by simp
next
  case (Cons ev es)
  show ?case
  proof (cases ev)
    case (Callback c)
    with Cons.prems obtain cs' where "producer_events es = map Callback cs'"
      by (auto simp: producer_events_def)
    from Cons.IH[OF this] show ?thesis
      by (simp add: Callback streamingCallback_def provideNextChunk_def createPromise_def)
  next
    case ReaderAwait
    with Cons.prems have "producer_events es = map Callback cs"
      by (simp add: producer_events_def)
    from Cons.IH[OF this] show ?thesis
      by (simp add: ReaderAwait reader_await_def split: reader_state.splits)
  next
    case ReaderResume
    with Cons.prems have "producer_events es = map Callback cs"
      by (simp add: producer_events_def)
    from Cons.IH[OF this] show ?thesis
      by (simp add: ReaderResume reader_resume_def
          split: reader_state.splits promise.splits option.splits)
  qed (use Cons.prems in \<open>auto simp: producer_events_def\<close>)
qed

lemma finalPromise_reader_only:
  "producer_events es = [] \<Longrightarrow> finalPromise (run_from s es) = finalPromise s"
  using finalPromise_callbacks[of es "[]"] by simp

lemma chain_reader_only:
  "producer_events es = [] \<Longrightarrow>
     chain (run_from s es) = chain s \<and> nextChunk (run_from s es) = nextChunk s"
proof (induction es arbitrary: s)
  case Nil
  then show ?case by simp
next
  case (Cons ev es)
  then have rest: "producer_events es = []" by (cases ev) (simp_all add: producer_events_def)
  from Cons.prems show ?case
    using Cons.IH[OF rest, of "step s ev"]
    by (cases ev)
      (simp_all add: producer_events_def reader_await_def reader_resume_def
        split: reader_state.splits promise.splits option.splits)
qed

lemma finishes_after_null:
  assumes "chain_inv s E" and "reader_inv s E" and "chain s ! length E = Fulfilled None"
  shows "reader (run_from s [ReaderResume, ReaderAwait, ReaderResume]) = Finished"
proof (cases "reader s")
  case NotAwaiting
  with assms show ?thesis
    by (simp add: reader_resume_def reader_await_def chain_inv_def)
next
  case (Awaiting p)
  with assms(2) have "p \<le> length E" by (simp add: reader_inv_def)
  then consider "p = length E" | "p < length E" by linarith
  then show ?thesis
  proof cases
    case 1
    with Awaiting assms show ?thesis
      by (simp add: reader_resume_def reader_await_def)
  next
    case 2
    with assms(1) have "chain s ! p = Fulfilled (Some (E ! p)) \<or> chain s ! p = Fulfilled None"
      by (simp add: chain_inv_def)
    with Awaiting assms show ?thesis
      by (auto simp: reader_resume_def reader_await_def chain_inv_def)
  qed
next
  case Finished
  then show ?thesis
    by (simp add: reader_resume_def reader_await_def)
qed

lemma in_step_init: "pre_inv generateStream []"
  by (simp add: pre_inv_def in_step_def generateStream_def executor_def initialResolve_def)

lemma pre_inv_reader_await: "pre_inv s E \<Longrightarrow> pre_inv (reader_await s) E"
  by (auto simp: pre_inv_def in_step_def reader_await_def split: reader_state.splits)

lemma pre_inv_reader_resume: "pre_inv s E \<Longrightarrow> pre_inv (reader_resume s) E"
proof -
  assume a: "pre_inv s E"
  have last: "E \<noteq> [] \<Longrightarrow> chain s ! (length E - 1) = Fulfilled (Some (last E))"
    using a by (simp add: pre_inv_def in_step_def last_conv_nth)
  from a last show ?thesis
    by (auto simp: pre_inv_def in_step_def reader_resume_def)
qed

lemma pre_inv_callback:
  assumes "pre_inv s E" and "reader s = Awaiting (nextChunk s)"
  shows "pre_inv (streamingCallback c s) (E @ [c])"
proof -
  have "length E - Suc 0 = length E \<longleftrightarrow> E = []"
    by (cases E) simp_all
  with assms have "received s = E"
    by (auto simp: pre_inv_def in_step_def)
  with assms show ?thesis
    by (auto simp: pre_inv_def in_step_def streamingCallback_def provideNextChunk_def
        createPromise_def Let_def resolve_def nth_append nth_list_update less_Suc_eq)
qed

lemma pre_inv_run:
  assumes "pre_inv s E" and "attentive s es" and "producer_events es = map Callback cs"
  shows "pre_inv (run_from s es) (E @ cs)"
  using assms
proof (induction es arbitrary: s E cs)
  case Nil
  then show ?case by (simp add: producer_events_def)
next
  case (Cons ev es)
  show ?case
  proof (cases ev)
    case (Callback c)
    with Cons.prems(3) obtain cs' where cs: "cs = c # cs'" "producer_events es = map Callback cs'"
      by (auto simp: producer_events_def)
    from Cons.prems(1,2) Callback have "pre_inv (streamingCallback c s) (E @ [c])"
      by (simp add: pre_inv_callback)
    from Cons.IH[OF this _ cs(2)] Cons.prems(2) Callback cs(1) show ?thesis by simp
  next
    case ReaderAwait
    with Cons.prems(3) have "producer_events es = map Callback cs"
      by (simp add: producer_events_def)
    from Cons.IH[OF pre_inv_reader_await[OF Cons.prems(1)] _ this] Cons.prems(2) ReaderAwait
    show ?thesis by simp
  next
    case ReaderResume
    with Cons.prems(3) have "producer_events es = map Callback cs"
      by (simp add: producer_events_def)
    from Cons.IH[OF pre_inv_reader_resume[OF Cons.prems(1)] _ this] Cons.prems(2) ReaderResume
    show ?thesis by simp
  qed (use Cons.prems(3) in \<open>auto simp: producer_events_def\<close>)
qed

lemma post_inv_onFulfilled: "pre_inv s E \<Longrightarrow> post_inv (onFulfilled v s) E v"
  by (auto simp: pre_inv_def post_inv_def in_step_def onFulfilled_def finalResolve_def
      provideNextChunk_def resolve_def nth_list_update)

lemma post_inv_reader_await: "post_inv s E v \<Longrightarrow> post_inv (reader_await s) E v"
  by (auto simp: post_inv_def in_step_def reader_await_def split: reader_state.splits)

lemma post_inv_reader_resume: "post_inv s E v \<Longrightarrow> post_inv (reader_resume s) E v"
proof -
  assume a: "post_inv s E v"
  have last: "E \<noteq> [] \<Longrightarrow> chain s ! (length E - 1) = Fulfilled (Some (last E))"
    using a by (simp add: post_inv_def in_step_def last_conv_nth)
  from a last show ?thesis
    by (auto simp: post_inv_def in_step_def reader_resume_def)
qed

lemma post_inv_run:
  assumes "post_inv s E v" and "producer_events es = []"
  shows "post_inv (run_from s es) E v"
  using assms
proof (induction es arbitrary: s)
  case Nil
  then show ?case by simp
next
  case (Cons ev es)
  then have rest: "producer_events es = []" by (cases ev) (simp_all add: producer_events_def)
  from Cons.prems show ?case
    using Cons.IH[OF _ rest, of "step s ev"]
    by (cases ev) (simp_all add: producer_events_def post_inv_reader_await post_inv_reader_resume)
qed

lemma post_inv_received:
  assumes "post_inv s E v"
  shows "received (run_from s [ReaderResume, ReaderAwait, ReaderResume]) = E"
proof -
  have "post_inv (run_from s [ReaderResume, ReaderAwait, ReaderResume]) E v"
    using assms by (rule post_inv_run) (simp add: producer_events_def)
  moreover have "reader (run_from s [ReaderResume, ReaderAwait, ReaderResume]) = Finished"
    using assms
    by (auto simp: post_inv_def in_step_def reader_resume_def reader_await_def last_conv_nth)
  ultimately show ?thesis
    by (cases "E = []") (auto simp: post_inv_def in_step_def)
qed

lemma attentive_append:
  "attentive s (es @ fs) \<longleftrightarrow> attentive s es \<and> attentive (run_from s es) fs"
proof (induction es arbitrary: s)
  case Nil
  show ?case by simp
next
  case (Cons ev es)
  then show ?case by (cases ev) auto
qed

lemmas bridge_eval =
  run_generateStream_def generateStream_def executor_def
  initialResolve_def initialReject_def finalResolve_def finalReject_def
  streamingCallback_def provideNextChunk_def createPromise_def onFulfilled_def onRejected_def
  reader_await_def reader_resume_def resolve_def reject_def producer_events_def Let_def

text \<open>
  What the bridge does deliver. Let the producer invoke the callback with \<open>c1..cn\<close> and then
  resolve with \<open>v\<close>, the reader's steps interleaved in any way. Then \<^verbatim>\<open>response\<close> is
  fulfilled with \<open>v\<close>, a reader that keeps iterating finishes, and what it has received is
  an in-order subsequence of \<open>c1..cn\<close>; it is all of \<open>c1..cn\<close> in the schedules where at
  every callback the reader was already awaiting the promise that the callback fulfilled.
\<close>

theorem stream_delivery_when_attentive:
  assumes "producer_events sched = map Callback cs @ [ProducerResolves v]"
  shows "subseq (received (run_generateStream sched)) cs \<and>
         finalPromise (run_generateStream sched) = Fulfilled v \<and>
         reader (run_generateStream (sched @ [ReaderResume, ReaderAwait, ReaderResume])) = Finished \<and>
         subseq (received (run_generateStream (sched @ [ReaderResume, ReaderAwait, ReaderResume]))) cs \<and>
         (attentive generateStream sched \<longrightarrow>
            received (run_generateStream (sched @ [ReaderResume, ReaderAwait, ReaderResume])) = cs)"
proof -
  let ?tail = "[ReaderResume, ReaderAwait, ReaderResume] :: ('a, 'b, 'c) event list"
  from assms obtain pre post where sched: "sched = pre @ ProducerResolves v # post"
    and pre: "producer_events pre = map Callback cs" and post: "producer_events post = []"
    by (rule producer_events_split)
  have em: "emitted sched = cs"
    by (simp add: sched emitted_append emitted_callbacks[OF pre] emitted_reader_only[OF post])
  have tail: "producer_events ?tail = []" by (simp add: producer_events_def)
  have em': "emitted (sched @ ?tail) = cs"
    by (simp add: emitted_append em)
  have sub: "subseq (received (run_generateStream sched)) cs"
    using received_subseq_emitted[of sched] by (simp add: em)
  have sub': "subseq (received (run_generateStream (sched @ ?tail))) cs"
    using received_subseq_emitted[of "sched @ ?tail"] by (simp only: em')
  let ?s1 = "run_from generateStream pre"
  let ?s2 = "onFulfilled v ?s1"
  have run: "run_generateStream sched = run_from ?s2 post"
    by (simp add: run_generateStream_def sched run_from_append)
  have "finalPromise ?s1 = Pending"
    using finalPromise_callbacks[OF pre, of generateStream]
    by (simp add: generateStream_def executor_def initialResolve_def)
  then have "finalPromise ?s2 = Fulfilled v"
    by (simp add: onFulfilled_def finalResolve_def provideNextChunk_def resolve_def)
  then have fin: "finalPromise (run_generateStream sched) = Fulfilled v"
    by (simp add: run finalPromise_reader_only[OF post])
  have inv1: "chain_inv ?s1 (emitted pre)" "reader_inv ?s1 (emitted pre)"
    using invs_run_from[OF chain_inv_init reader_inv_init, of pre] by simp_all
  have inv: "chain_inv (run_generateStream sched) cs" "reader_inv (run_generateStream sched) cs"
    using invs_run_from[OF chain_inv_init reader_inv_init, of sched]
    by (simp_all add: em run_generateStream_def)
  have "chain ?s2 ! nextChunk ?s2 = Fulfilled None"
    using inv1(1)
    by (auto simp: chain_inv_def onFulfilled_def finalResolve_def provideNextChunk_def resolve_def)
  then have "chain (run_generateStream sched) ! nextChunk (run_generateStream sched) = Fulfilled None"
    by (simp add: run chain_reader_only[OF post])
  with inv(1) have null: "chain (run_generateStream sched) ! length cs = Fulfilled None"
    by (simp add: chain_inv_def)
  have stop: "reader (run_generateStream (sched @ ?tail)) = Finished"
    using finishes_after_null[OF inv null]
    by (simp add: run_generateStream_def run_from_append)
  have exact: "received (run_generateStream (sched @ ?tail)) = cs" if att: "attentive generateStream sched"
  proof -
    from att have "attentive generateStream pre" by (simp add: sched attentive_append)
    with in_step_init have "pre_inv ?s1 ([] @ cs)" using pre by (rule pre_inv_run)
    then have "post_inv ?s2 cs v" by (simp add: post_inv_onFulfilled)
    then have "post_inv (run_generateStream sched) cs v"
      unfolding run using post by (rule post_inv_run)
    from post_inv_received[OF this] show ?thesis
      by (simp add: run_generateStream_def run_from_append)
  qed
  from sub fin stop sub' exact show ?thesis by blast
qed

text \<open>The producer of the specification's example, with a reader that keeps up.\<close>

theorem stream_delivery_when_attentive_witness:
  "producer_events
     [ReaderAwait, Callback ''a'', ReaderResume, ReaderAwait, Callback ''b'', ReaderResume,
      ReaderAwait, ProducerResolves ''ab'', ReaderResume :: (string, string, string) event]
     = map Callback [''a'', ''b''] @ [ProducerResolves ''ab''] \<and>
   attentive generateStream
     [ReaderAwait, Callback ''a'', ReaderResume, ReaderAwait, Callback ''b'', ReaderResume,
      ReaderAwait, ProducerResolves ''ab'', ReaderResume :: (string, string, string) event] \<and>
   received (run_generateStream
     ([ReaderAwait, Callback ''a'', ReaderResume, ReaderAwait, Callback ''b'', ReaderResume,
       ReaderAwait, ProducerResolves ''ab'', ReaderResume :: (string, string, string) event]
      @ [ReaderResume, ReaderAwait, ReaderResume])) = [''a'', ''b'']"
proof -
  let ?S = "[ReaderAwait, Callback ''a'', ReaderResume, ReaderAwait, Callback ''b'', ReaderResume,
      ReaderAwait, ProducerResolves ''ab'', ReaderResume :: (string, string, string) event]"
  have p: "producer_events ?S = map Callback [''a'', ''b''] @ [ProducerResolves ''ab'']"
    by (simp add: producer_events_def)
  have a: "attentive generateStream ?S"
    by (simp add: bridge_eval)
  from stream_delivery_when_attentive[OF p] a p show ?thesis by blast
qed

text \<open>
  Claim C1, evaluated: the producer invokes the callback with \<open>a\<close> and \<open>b\<close> in one
  synchronous turn, then resolves with \<open>ab\<close>; the reader awaits the first promise from the
  start. The callback fulfils a promise with each chunk, but overwrites \<^verbatim>\<open>nextChunk\<close> before
  the reader evaluates \<^verbatim>\<open>await nextChunk\<close> again: the promise that carries \<open>b\<close> is never
  read. The reader receives \<open>a\<close> only and then finishes.
\<close>

theorem second_chunk_of_one_turn_is_lost:
  "producer_events
     [ReaderAwait, Callback ''a'', Callback ''b'', ReaderResume, ReaderAwait,
      ProducerResolves ''ab'', ReaderResume :: (string, string, string) event]
     = map Callback [''a'', ''b''] @ [ProducerResolves ''ab''] \<and>
   reader (run_generateStream
     [ReaderAwait, Callback ''a'', Callback ''b'', ReaderResume, ReaderAwait,
      ProducerResolves ''ab'', ReaderResume :: (string, string, string) event]) = Finished \<and>
   received (run_generateStream
     [ReaderAwait, Callback ''a'', Callback ''b'', ReaderResume, ReaderAwait,
      ProducerResolves ''ab'', ReaderResume :: (string, string, string) event]) = [''a''] \<and>
   chain (run_generateStream
     [ReaderAwait, Callback ''a'', Callback ''b'', ReaderResume, ReaderAwait,
      ProducerResolves ''ab'', ReaderResume :: (string, string, string) event])
     = [Fulfilled (Some ''a''), Fulfilled (Some ''b''), Fulfilled None] \<and>
   finalPromise (run_generateStream
     [ReaderAwait, Callback ''a'', Callback ''b'', ReaderResume, ReaderAwait,
      ProducerResolves ''ab'', ReaderResume :: (string, string, string) event]) = Fulfilled ''ab''"
  by (simp add: bridge_eval)

text \<open>
  As long as the producer's promise is not fulfilled, whether it is still pending or has
  been rejected, the reader does not finish, \<^verbatim>\<open>response\<close> is not settled, and the promise
  returned by \<^verbatim>\<open>generateStream\<close> is fulfilled.
\<close>

lemma unsettled_init: "unsettled generateStream"
  by (simp add: unsettled_def generateStream_def executor_def initialResolve_def resolve_def)

lemma unsettled_step:
  assumes "unsettled s" and "never_resolves [ev]"
  shows "unsettled (step s ev)"
proof (cases ev)
  case (Callback c)
  from assms(1) show ?thesis
    unfolding Callback unsettled_def
    by (auto simp: streamingCallback_def provideNextChunk_def createPromise_def Let_def
        resolve_def nth_append nth_list_update less_Suc_eq split: promise.splits)
next
  case (ProducerResolves r)
  with assms(2) show ?thesis by simp
next
  case (ProducerRejects e)
  from assms(1) show ?thesis
    unfolding ProducerRejects unsettled_def by (simp add: onRejected_def)
next
  case ReaderAwait
  from assms(1) show ?thesis
    unfolding ReaderAwait unsettled_def
    by (auto simp: reader_await_def split: reader_state.splits)
next
  case ReaderResume
  from assms(1) show ?thesis
    unfolding ReaderResume unsettled_def
    by (auto simp: reader_resume_def split: reader_state.splits promise.splits option.splits)
qed

lemma unsettled_run_from:
  assumes "unsettled s" and "never_resolves sched"
  shows "unsettled (run_from s sched)"
  using assms
proof (induction sched arbitrary: s)
  case Nil
  then show ?case by simp
next
  case (Cons ev sched)
  from Cons.prems(2) have "never_resolves [ev]" and "never_resolves sched"
    by (cases ev; simp)+
  with Cons.prems(1) Cons.IH[of "step s ev"] show ?case
    by (simp add: unsettled_step)
qed

lemma failure_never_surfaces:
  assumes "never_resolves sched"
  shows "reader (run_generateStream sched) \<noteq> Finished \<and>
         finalPromise (run_generateStream sched) = Pending \<and>
         initialPromise (run_generateStream sched) = Fulfilled ()"
  using unsettled_run_from[OF unsettled_init assms]
  by (simp add: unsettled_def run_generateStream_def)

text \<open>
  Claim C2, evaluated: the producer emits \<open>a\<close> and then fails. The reader receives \<open>a\<close>,
  awaits the second promise of the chain, and that promise stays pending however long the
  reader waits; \<^verbatim>\<open>response\<close> stays pending too. The failure reaches no handler.
\<close>

theorem reject_after_chunk_is_dropped:
  "received (run_generateStream
     [ReaderAwait, Callback ''a'', ReaderResume, ReaderAwait, ProducerRejects ''boom'',
      ReaderResume, ReaderAwait, ReaderResume :: (string, string, string) event]) = [''a''] \<and>
   reader (run_generateStream
     [ReaderAwait, Callback ''a'', ReaderResume, ReaderAwait, ProducerRejects ''boom'',
      ReaderResume, ReaderAwait, ReaderResume :: (string, string, string) event]) = Awaiting 1 \<and>
   chain (run_generateStream
     [ReaderAwait, Callback ''a'', ReaderResume, ReaderAwait, ProducerRejects ''boom'',
      ReaderResume, ReaderAwait, ReaderResume :: (string, string, string) event])
     = [Fulfilled (Some ''a''), Pending] \<and>
   finalPromise (run_generateStream
     [ReaderAwait, Callback ''a'', ReaderResume, ReaderAwait, ProducerRejects ''boom'',
      ReaderResume, ReaderAwait, ReaderResume :: (string, string, string) event]) = Pending \<and>
   unhandled (run_generateStream
     [ReaderAwait, Callback ''a'', ReaderResume, ReaderAwait, ProducerRejects ''boom'',
      ReaderResume, ReaderAwait, ReaderResume :: (string, string, string) event]) = [''boom'']"
  by (simp add: bridge_eval)

text \<open>
  Claim C8. Whatever the producer and the reader do, in whatever order, the chunks the
  reader has received are an in-order subsequence of the chunks emitted. A chunk whose
  callback fires while the reader is not awaiting the current \<^verbatim>\<open>nextChunk\<close> promise is never
  received; chunks are objects, told apart here by emitting pairwise different values.
\<close>

theorem reader_sees_in_order_subsequence:
  "subseq (received (run_generateStream sched)) (emitted sched) \<and>
   (distinct (emitted (pre @ Callback c # post)) \<and>
    reader (run_generateStream pre) \<noteq> Awaiting (nextChunk (run_generateStream pre)) \<longrightarrow>
    c \<notin> set (received (run_generateStream (pre @ Callback c # post))))"
  using received_subseq_emitted[of sched] unawaited_chunk_skipped[of pre c post] by blast

text \<open>Two callbacks in one turn: the reader awaits the first promise, \<open>b\<close> goes to the second.\<close>

theorem reader_sees_in_order_subsequence_witness:
  "distinct (emitted ([ReaderAwait, Callback ''a''] @ Callback ''b'' #
      [ReaderResume, ReaderAwait, ProducerResolves ''ab'', ReaderResume :: (string, string, string) event])) \<and>
   reader (run_generateStream [ReaderAwait, Callback ''a'' :: (string, string, string) event])
     \<noteq> Awaiting (nextChunk (run_generateStream [ReaderAwait, Callback ''a'' :: (string, string, string) event])) \<and>
   ''b'' \<notin> set (received (run_generateStream ([ReaderAwait, Callback ''a''] @ Callback ''b'' #
      [ReaderResume, ReaderAwait, ProducerResolves ''ab'', ReaderResume :: (string, string, string) event])))"
proof -
  let ?pre = "[ReaderAwait, Callback ''a'' :: (string, string, string) event]"
  let ?post = "[ReaderResume, ReaderAwait, ProducerResolves ''ab'', ReaderResume :: (string, string, string) event]"
  have d: "distinct (emitted (?pre @ Callback ''b'' # ?post))" by simp
  have r: "reader (run_generateStream ?pre) \<noteq> Awaiting (nextChunk (run_generateStream ?pre))"
    by (simp add: bridge_eval)
  from reader_sees_in_order_subsequence[of _ ?pre "''b''" ?post] d r show ?thesis by blast
qed

text \<open>
  The \<^verbatim>\<open>catch\<close> block, had an exception reached it before any chunk, rejects the promise
  returned by \<^verbatim>\<open>generateStream\<close>.
\<close>

lemma catch_block_rejects_initial:
  "initialPromise (executor (Some e)) = Rejected e \<and> finalPromise (executor (Some e)) = Pending"
  by (simp add: executor_def initialReject_def reject_def)

section \<open>\<^verbatim>\<open>GenerateResponse.raw\<close>: proofs\<close>

lemma raw_returns_nothing: "raw this = Some y \<Longrightarrow> False"
  by (rule raw.raw_induct[where P = "\<lambda>_ _. False" and this = this and y = y])
     (auto split: bind_splits)

lemma raw_diverges: "raw this = None"
  using raw_returns_nothing[of this] by (cases "raw this") auto

lemma raw_on_stack_overflows: "raw_on_stack frames this = Inl RangeError"
  by (induction frames) simp_all

text \<open>
  Claim C9. For every response object, reading \<^verbatim>\<open>raw\<close> returns no value: the evaluation does
  not terminate, and on a stack of any finite depth it ends in \<^verbatim>\<open>RangeError\<close>. The value of
  \<^verbatim>\<open>custom\<close> is never the result.
\<close>

theorem raw_never_returns:
  "raw this = None \<and> raw_on_stack frames this = Inl RangeError"
  by (simp add: raw_diverges raw_on_stack_overflows)

section \<open>\<^verbatim>\<open>toGenerateRequest\<close> and \<^verbatim>\<open>generate\<close>: proofs\<close>









lemmas generate_eval =
  generate_def toGenerateRequest_def assemble_messages_def resolveModel_def convert_tools_def
  generate_settles_def test_env_def Let_def




text \<open>
  Claim C3, evaluated: \<^verbatim>\<open>generateStream\<close> is called with options that name no model, so
  \<^verbatim>\<open>generate\<close> fails before the model can emit a chunk. The promise returned by
  \<^verbatim>\<open>generateStream\<close> is fulfilled, not rejected; \<^verbatim>\<open>response\<close> stays pending and the failure
  reaches no handler.
\<close>

theorem reject_before_chunk_resolves_initial:
  "generate_settles test_env
      \<lparr>model = None, system = None, prompt = Some (PromptString ''hi''), messages = None,
       tools = None\<rparr>
     = (ProducerRejects (Error ''Model is required.'')
          :: (string, string \<times> unit generate_request, unit error) event) \<and>
   initialPromise (run_generateStream
      [ProducerRejects (Error ''Model is required.'')
          :: (string, string \<times> unit generate_request, unit error) event]) = Fulfilled () \<and>
   firstChunkSent (run_generateStream
      [ProducerRejects (Error ''Model is required.'')
          :: (string, string \<times> unit generate_request, unit error) event]) = False \<and>
   finalPromise (run_generateStream
      [ProducerRejects (Error ''Model is required.'')
          :: (string, string \<times> unit generate_request, unit error) event]) = Pending \<and>
   unhandled (run_generateStream
      [ProducerRejects (Error ''Model is required.'')
          :: (string, string \<times> unit generate_request, unit error) event])
     = [Error ''Model is required.'']"
  by (simp add: generate_eval bridge_eval)

section \<open>The \<^verbatim>\<open>/api/streamAction\<close> handler: proofs\<close>

lemma hex_digit_in: "hex_digit n \<in> set ''0123456789abcdef''"
  unfolding hex_digit_def by (rule nth_mem) simp

lemma hex_digit_not_newline: "hex_digit n \<noteq> CHR 0x0A" "CHR 0x0A \<noteq> hex_digit n"
  using hex_digit_in[of n] by auto

lemma quote_char_no_newline: "CHR 0x0A \<notin> set (quote_char c)"
  by (simp add: quote_char_def hex_digit_not_newline)

lemma quote_no_newline: "CHR 0x0A \<notin> set (quote s)"
  by (simp add: quote_def quote_char_no_newline)

lemma join_no_newline:
  "CHR 0x0A \<notin> set sep \<Longrightarrow> (\<And>x. x \<in> set xs \<Longrightarrow> CHR 0x0A \<notin> set x) \<Longrightarrow> CHR 0x0A \<notin> set (join sep xs)"
  by (induction sep xs rule: join.induct) auto

text \<open>The text of a number contains no line feed; then no JSON text does.\<close>

lemma stringify_no_newline:
  assumes "\<And>n. CHR 0x0A \<notin> set (numberToString n)"
  shows "CHR 0x0A \<notin> set (stringify numberToString j)"
  using assms
proof (induction numberToString j rule: stringify.induct)
  case (5 numberToString xs)
  have "CHR 0x0A \<notin> set (join '','' (map (stringify numberToString) xs))"
    by (rule join_no_newline) (use 5 in auto)
  then show ?case by simp
next
  case (6 numberToString kvs)
  have "CHR 0x0A \<notin> set (join '','' (map (\<lambda>(k, v). quote k @ '':'' @ stringify numberToString v) kvs))"
    by (rule join_no_newline) (use 6 in \<open>auto simp: quote_no_newline\<close>)
  then show ?case by simp
qed (simp_all add: quote_no_newline)

lemma split_records_nonempty: "split_records s \<noteq> []"
  by (induction s) (auto split: list.splits)

lemma split_records_single: "CHR 0x0A \<notin> set a \<Longrightarrow> split_records a = [a]"
  by (induction a) (auto split: list.splits)

lemma split_records_append:
  "CHR 0x0A \<notin> set a \<Longrightarrow> split_records (a @ CHR 0x0A # b) = a # split_records b"
  by (induction a) (auto split: list.splits)

lemma split_records_frames:
  assumes "\<And>r. r \<in> set rs \<Longrightarrow> CHR 0x0A \<notin> set r" and "CHR 0x0A \<notin> set final"
  shows "split_records (concat (map (\<lambda>r. r @ [CHR 0x0A]) rs) @ final) = rs @ [final]"
  using assms
proof (induction rs)
  case Nil
  then show ?case by (simp add: split_records_single)
next
  case (Cons r rs)
  then show ?case by (simp add: split_records_append)
qed

lemma response_fields:
  "body (res_write s res) = body res @ s" "ended (res_write s res) = ended res"
  "body (end_response res) = body res" "ended (end_response res) = True"
  "body (writeHead code res) = body res" "ended (writeHead code res) = ended res"
  by (simp_all add: res_write_def end_response_def writeHead_def)

lemma foldl_write_body:
  "body (foldl (\<lambda>res chunk. res_write (stringify num chunk @ [CHR 0x0A]) res) res chunks)
     = body res @ concat (map (\<lambda>c. stringify num c @ [CHR 0x0A]) chunks)"
  by (induction chunks arbitrary: res) (simp_all add: response_fields)

lemma foldl_write_ended:
  "ended (foldl (\<lambda>res chunk. res_write (stringify num chunk @ [CHR 0x0A]) res) res chunks) = ended res"
  by (induction chunks arbitrary: res) (simp_all add: response_fields)

text \<open>
  When \<^verbatim>\<open>runAction\<close> is fulfilled, the body is one record per callback invocation, in
  callback order, each the chunk's JSON text followed by a line feed, then exactly one
  final record, the JSON text of the result, and the response is ended. Cutting the body
  at line feeds gives back exactly these records.
\<close>

lemma streamAction_resolved:
  "body (fst (streamAction num chunks (Resolves result)))
     = concat (map (\<lambda>c. stringify num c @ [CHR 0x0A]) chunks) @ stringify num result"
  "ended (fst (streamAction num chunks (Resolves result)))"
  "snd (streamAction num chunks (Resolves result)) = None"
  by (simp_all add: streamAction_def Let_def response_fields foldl_write_body foldl_write_ended)

lemma streamAction_resolved_records:
  assumes "\<And>n. CHR 0x0A \<notin> set (num n)"
  shows "split_records (body (fst (streamAction num chunks (Resolves result))))
     = map (stringify num) chunks @ [stringify num result]"
proof -
  have "split_records (concat (map (\<lambda>r. r @ [CHR 0x0A]) (map (stringify num) chunks))
          @ stringify num result)
     = map (stringify num) chunks @ [stringify num result]"
    by (rule split_records_frames) (auto simp: stringify_no_newline[OF assms])
  then show ?thesis
    by (simp add: streamAction_resolved map_map comp_def)
qed

text \<open>
  When \<^verbatim>\<open>runAction\<close> is rejected, whatever the chunks, the body holds the chunk records only
  and \<^verbatim>\<open>res.end()\<close> is not reached.
\<close>

lemma streamAction_rejected:
  "body (fst (streamAction num chunks (Rejects e)))
     = concat (map (\<lambda>c. stringify num c @ [CHR 0x0A]) chunks)"
  "\<not> ended (fst (streamAction num chunks (Rejects e)))"
  "snd (streamAction num chunks (Rejects e)) = Some e"
  by (simp_all add: streamAction_def Let_def response_fields foldl_write_body foldl_write_ended)

text \<open>
  Claim C7, evaluated: the action streams the chunk \<^verbatim>\<open>{"count": 0}\<close> and then
  \<^verbatim>\<open>runner.runAction\<close> rejects. The body is that one chunk record; no final record, neither a
  result nor an error, follows it, and the response is never ended. The handler's own
  promise is rejected.
\<close>

theorem streamAction_rejection_leaves_response_open:
  "body (fst (streamAction numberToString [JObject [(''count'', JNumber (0 :: nat))]]
            (Rejects ''unreachable'')))
     = [CHR ''{'', CHR 0x22] @ ''count'' @ [CHR 0x22, CHR '':''] @ numberToString 0
         @ [CHR ''}'', CHR 0x0A] \<and>
   \<not> ended (fst (streamAction numberToString [JObject [(''count'', JNumber (0 :: nat))]]
            (Rejects ''unreachable''))) \<and>
   snd (streamAction numberToString [JObject [(''count'', JNumber (0 :: nat))]]
            (Rejects ''unreachable'')) = Some ''unreachable''"
  by (simp add: streamAction_def Let_def response_fields quote_def quote_char_def)

section \<open>The step memoizer and the flow engine: proofs\<close>






section \<open>The fan-out executor: proofs\<close>

lemma collect_eq_Some: "collect xs = Some rs \<longleftrightarrow> xs = map Some rs"
proof (induction xs arbitrary: rs rule: collect.induct)
  case 1
  show ?case by auto
next
  case (2 xs)
  show ?case by auto
next
  case (3 y xs)
  then show ?case by (cases rs) auto
qed

lemma collect_all_filled:
  assumes "\<forall>i < length xs. xs ! i \<noteq> None"
  shows "\<exists>rs. collect xs = Some rs"
proof -
  have "xs = map Some (map the xs)"
    using assms by (auto simp: list_eq_iff_nth_eq)
  then show ?thesis using collect_eq_Some[of xs "map the xs"] by blast
qed

lemma fanout_inv_launch:
  assumes "fanout_inv items fn st" and "nextIndex st < length items"
  shows "fanout_inv items fn (launch st)"
  using assms unfolding fanout_inv_def launch_def
  by (auto simp: less_Suc_eq)

lemma nth_remove_mem:
  assumes "k < length xs"
  shows "set (take k xs @ drop (Suc k) xs) \<subseteq> set xs"
  by (auto dest: in_set_takeD in_set_dropD)

lemma distinct_remove_nth:
  assumes "distinct xs" and "k < length xs"
  shows "distinct (take k xs @ drop (Suc k) xs) \<and> set (take k xs @ drop (Suc k) xs) = set xs - {xs ! k}"
proof -
  have xs: "xs = take k xs @ xs ! k # drop (Suc k) xs"
    using assms(2) by (simp add: id_take_nth_drop)
  from assms(1) have "distinct (take k xs @ xs ! k # drop (Suc k) xs)"
    using xs by simp
  moreover have "set xs = set (take k xs @ xs ! k # drop (Suc k) xs)"
    using xs by simp
  ultimately show ?thesis by auto
qed

lemma fanout_inv_complete:
  assumes inv: "fanout_inv items fn st" and k: "k < length (inFlight st)"
  shows "fanout_inv items fn (complete items fn k st)"
proof -
  let ?i = "inFlight st ! k"
  let ?rest = "take k (inFlight st) @ drop (Suc k) (inFlight st)"
  from inv have d: "distinct (inFlight st)" by (simp add: fanout_inv_def)
  from distinct_remove_nth[OF d k]
  have rest: "distinct ?rest" "set ?rest = set (inFlight st) - {?i}" by simp_all
  from inv have I1: "length (slots st) = length items" and I2: "nextIndex st \<le> length items"
    by (simp_all add: fanout_inv_def)
  from inv have I4: "j < nextIndex st" if "j \<in> set (inFlight st)" for j
    using that by (simp add: fanout_inv_def)
  from inv have I5: "fn (items ! j) = Ok z" if "j < length items" "slots st ! j = Some z" for j z
    using that by (simp add: fanout_inv_def)
  from inv have I6: "slots st ! j \<noteq> None"
    if "failure st = None" "j < nextIndex st" "j \<notin> set (inFlight st)" for j
    using that by (simp add: fanout_inv_def)
  from inv have I7: "\<exists>x \<in> set items. fn x = Err e" if "failure st = Some e" for e
    using that by (simp add: fanout_inv_def)
  from k have mem: "?i \<in> set (inFlight st)" by simp
  then have lt: "?i < nextIndex st" by (rule I4)
  with I2 have lt': "?i < length items" by simp
  have bound: "j < nextIndex st" if "j \<in> set ?rest" for j
    using that rest(2) I4 by blast
  show ?thesis
  proof (cases "fn (items ! ?i)")
    case (Ok y)
    have st': "complete items fn k st = st\<lparr>inFlight := ?rest, slots := (slots st)[?i := Some y]\<rparr>"
      by (simp add: complete_def Let_def Ok)
    have S5: "fn (items ! j) = Ok z"
      if "j < length items" "(slots st)[?i := Some y] ! j = Some z" for j z
    proof (cases "j = ?i")
      case True
      with that I1 Ok show ?thesis by simp
    next
      case False
      with that I5 show ?thesis by simp
    qed
    have S6: "(slots st)[?i := Some y] ! j \<noteq> None"
      if "failure st = None" "j < nextIndex st" "j \<notin> set ?rest" for j
    proof (cases "j = ?i")
      case True
      with lt' I1 show ?thesis by simp
    next
      case False
      with that rest(2) have "j \<notin> set (inFlight st)" by blast
      with that I6 False show ?thesis by simp
    qed
    show ?thesis
      unfolding st' fanout_inv_def
      using I1 I2 rest(1) bound S5 S6 I7 by simp
  next
    case (Err e)
    have st': "complete items fn k st =
        st\<lparr>inFlight := ?rest, failure := Some (case failure st of None \<Rightarrow> e | Some e0 \<Rightarrow> e0)\<rparr>"
      by (simp add: complete_def Let_def Err)
    have here: "\<exists>x \<in> set items. fn x = Err e"
      using Err lt' by (metis nth_mem)
    have S7: "\<exists>x \<in> set items. fn x = Err (case failure st of None \<Rightarrow> e | Some e0 \<Rightarrow> e0)"
      using here I7 by (cases "failure st") simp_all
    show ?thesis
      unfolding st' fanout_inv_def
      using I1 I2 rest(1) bound I5 S7 by simp
  qed
qed

lemma pick_in_range: "inFlight st \<noteq> [] \<Longrightarrow> pick sched st < length (inFlight st)"
  by (simp add: pick_def split: list.splits)

lemma finish_correct:
  assumes inv: "fanout_inv items fn st" and idle: "inFlight st = []"
    and stuck: "\<not> (failure st = None \<and> length (inFlight st) < limit \<and> nextIndex st < length items)"
    and limit: "1 \<le> limit"
  shows "case finish items st of
           Some (Inr rs) \<Rightarrow> map Ok rs = map fn items
         | Some (Inl e) \<Rightarrow> \<exists>x \<in> set items. fn x = Err e
         | None \<Rightarrow> False"
proof (cases "failure st")
  case (Some e)
  with inv show ?thesis by (simp add: finish_def fanout_inv_def)
next
  case None
  with stuck idle limit have full: "nextIndex st = length items"
    using inv by (auto simp: fanout_inv_def)
  with inv None idle have filled: "\<forall>i < length (slots st). slots st ! i \<noteq> None"
    by (simp add: fanout_inv_def)
  then obtain rs where rs: "collect (slots st) = Some rs"
    using collect_all_filled by blast
  then have eq: "slots st = map Some rs" by (simp add: collect_eq_Some)
  with inv have len: "length rs = length items" by (auto simp: fanout_inv_def)
  have "map Ok rs = map fn items"
  proof (rule nth_equalityI)
    show "length (map Ok rs) = length (map fn items)" using len by simp
  next
    fix i assume "i < length (map Ok rs)"
    then have i: "i < length items" using len by simp
    then have "slots st ! i = Some (rs ! i)" using eq len by simp
    with inv i have "fn (items ! i) = Ok (rs ! i)" by (simp add: fanout_inv_def)
    with i len show "map Ok rs ! i = map fn items ! i" by simp
  qed
  with None full rs show ?thesis by (simp add: finish_def)
qed

lemma fanout_loop_launch:
  assumes "failure st = None \<and> length (inFlight st) < limit \<and> nextIndex st < length items"
  shows "fanout_loop sched items limit fn st = fanout_loop sched items limit fn (launch st)"
  using assms by (subst fanout_loop.simps) simp

lemma fanout_loop_finish:
  assumes "\<not> (failure st = None \<and> length (inFlight st) < limit \<and> nextIndex st < length items)"
    and "inFlight st = []"
  shows "fanout_loop sched items limit fn st = finish items st"
  using assms by (subst fanout_loop.simps) auto

lemma fanout_loop_complete:
  assumes "\<not> (failure st = None \<and> length (inFlight st) < limit \<and> nextIndex st < length items)"
    and "inFlight st \<noteq> []"
  shows "fanout_loop sched items limit fn st
           = fanout_loop (tl sched) items limit fn (complete items fn (pick sched st) st)"
  using assms by (subst fanout_loop.simps) auto

lemma fanout_loop_correct:
  assumes "fanout_inv items fn st" and "1 \<le> limit"
  shows "case fanout_loop sched items limit fn st of
           Some (Inr rs) \<Rightarrow> map Ok rs = map fn items
         | Some (Inl e) \<Rightarrow> \<exists>x \<in> set items. fn x = Err e
         | None \<Rightarrow> False"
  using assms
proof (induction sched items limit fn st rule: fanout_loop.induct)
  case (1 sched items limit fn st)
  show ?case
  proof (cases "failure st = None \<and> length (inFlight st) < limit \<and> nextIndex st < length items")
    case True
    then have "fanout_inv items fn (launch st)"
      using "1.prems"(1) by (simp add: fanout_inv_launch)
    from "1.IH"(1)[OF True this "1.prems"(2)] show ?thesis
      by (simp only: fanout_loop_launch[OF True])
  next
    case False
    show ?thesis
    proof (cases "inFlight st = []")
      case True
      from finish_correct[OF "1.prems"(1) True False "1.prems"(2)] show ?thesis
        by (simp only: fanout_loop_finish[OF False True])
    next
      case busy: False
      have "fanout_inv items fn (complete items fn (pick sched st) st)"
        using "1.prems"(1) pick_in_range[OF busy] by (rule fanout_inv_complete)
      from "1.IH"(2)[OF False busy this "1.prems"(2)] show ?thesis
        by (simp only: fanout_loop_complete[OF False busy])
    qed
  qed
qed

lemma fanout_inv_initial:
  "fanout_inv items fn \<lparr>nextIndex = 0, inFlight = [], slots = replicate (length items) None, failure = None\<rparr>"
  by (simp add: fanout_inv_def)

lemma fanout_map_correct:
  assumes "1 \<le> limit"
  shows "case fanout_map sched items limit fn of
           Some (Inr rs) \<Rightarrow> map Ok rs = map fn items
         | Some (Inl e) \<Rightarrow> \<exists>x \<in> set items. fn x = Err e
         | None \<Rightarrow> False"
  unfolding fanout_map_def using fanout_inv_initial assms by (rule fanout_loop_correct)

text \<open>
  Claim C6. For every list of items, every \<^verbatim>\<open>concurrencyLimit\<close> of at least one, every
  function and every completion order, the fan-out returns; when it returns results,
  \<open>results[i]\<close> is the outcome of the function on \<open>items[i]\<close> for every \<open>i\<close>; it fails only if
  an invocation failed. For a function that never fails the results are the function
  mapped over the items.
\<close>

theorem fanout_results_in_input_order:
  assumes "1 \<le> concurrencyLimit"
  shows "(case fanout_map sched items concurrencyLimit fn of
            Some (Inr results) \<Rightarrow> map Ok results = map fn items
          | Some (Inl e) \<Rightarrow> \<exists>x \<in> set items. fn x = Err e
          | None \<Rightarrow> False) \<and>
         fanout_map sched items concurrencyLimit (\<lambda>x. Ok (g x)) = Some (Inr (map g items))"
proof
  show "case fanout_map sched items concurrencyLimit fn of
            Some (Inr results) \<Rightarrow> map Ok results = map fn items
          | Some (Inl e) \<Rightarrow> \<exists>x \<in> set items. fn x = Err e
          | None \<Rightarrow> False"
    using assms by (rule fanout_map_correct)
next
  have ok: "case fanout_map sched items concurrencyLimit (\<lambda>x. Ok (g x)) of
            Some (Inr results) \<Rightarrow> map Ok results = map (\<lambda>x. Ok (g x)) items
          | Some (Inl e) \<Rightarrow> \<exists>x \<in> set items. Ok (g x) = Err e
          | None \<Rightarrow> False"
    using assms by (rule fanout_map_correct)
  have inj: "rs = map g items" if "map Ok rs = map (\<lambda>x. Ok (g x)) items" for rs :: "'c list"
  proof -
    have "map (\<lambda>x. Ok (g x)) items = map Ok (map g items)" by simp
    with that have "map Ok rs = map Ok (map g items)" by (simp only:)
    moreover have "inj (Ok :: 'c \<Rightarrow> 'c outcome)" by (simp add: inj_on_def)
    ultimately show ?thesis by (simp only: inj_map_eq_map)
  qed
  from ok inj show "fanout_map sched items concurrencyLimit (\<lambda>x. Ok (g x)) = Some (Inr (map g items))"
    by (auto split: option.splits sum.splits)
qed

text \<open>
  The specification's example: \<^verbatim>\<open>map([3,1,2], 3, double)\<close> where the second invocation
  completes first.
\<close>

theorem fanout_results_in_input_order_witness:
  "(1::nat) \<le> 3 \<and>
   fanout_map [1, 0, 0] [3, 1, 2 :: nat] 3 (\<lambda>x. Ok (2 * x)) = Some (Inr [6, 2, 4])"
  using fanout_results_in_input_order[where concurrencyLimit = 3 and sched = "[1, 0, 0]"
      and items = "[3, 1, 2 :: nat]" and fn = "\<lambda>x. Ok (2 * x)" and g = "\<lambda>x. 2 * x"]
  by simp

end
